theory Spec2Isabelle
  imports Complex_Main "HOL-Library.AList" "HOL-Library.Sublist"
begin

section \<open>Python values and the graph container\<close>

text \<open>
  Both programs build an undirected graph object of the graph library and query it.
  The library is not part of the repository; its container is modelled here by what its
  documentation promises: a node dictionary in insertion order (node to attribute
  dictionary) and a collection of undirected edges without parallel edges, in insertion
  order. Exceptions are values of \<open>py_error\<close>.
\<close>

datatype py_error =
  KeyError | ValueError | IndexError | FileNotFoundError
  | ZeroDivisionError | NetworkXNoPath | NetworkXError | NodeNotFound

type_synonym 'v attrs = "(string \<times> 'v) list"

record ('n, 'v) graph =
  node_dict :: "('n \<times> 'v attrs) list"
  edge_list :: "('n \<times> 'n) list"

definition empty_graph :: "('n, 'v) graph" where
  "empty_graph = \<lparr>node_dict = [], edge_list = []\<rparr>"

definition has_node :: "('n, 'v) graph \<Rightarrow> 'n \<Rightarrow> bool" where
  "has_node G n = (n \<in> set (map fst (node_dict G)))"

definition has_edge :: "('n, 'v) graph \<Rightarrow> 'n \<Rightarrow> 'n \<Rightarrow> bool" where
  "has_edge G u v = ((u, v) \<in> set (edge_list G) \<or> (v, u) \<in> set (edge_list G))"

definition number_of_nodes :: "('n, 'v) graph \<Rightarrow> nat" where
  "number_of_nodes G = length (node_dict G)"

definition number_of_edges :: "('n, 'v) graph \<Rightarrow> nat" where
  "number_of_edges G = length (edge_list G)"

text \<open>\<open>d.update(kw)\<close> on an attribute dictionary.\<close>

definition dict_update :: "'v attrs \<Rightarrow> 'v attrs \<Rightarrow> 'v attrs" where
  "dict_update d kw = fold (\<lambda>(k, v) acc. AList.update k v acc) kw d"

text \<open>
  \<open>G.add_node(n, **kw)\<close>: a new node gets a fresh attribute dictionary updated with
  \<open>kw\<close>; an existing node keeps its place and has its attributes updated.
\<close>

definition add_node :: "('n, 'v) graph \<Rightarrow> 'n \<Rightarrow> 'v attrs \<Rightarrow> ('n, 'v) graph" where
  "add_node G n kw =
     (case map_of (node_dict G) n of
        None \<Rightarrow> G\<lparr>node_dict := node_dict G @ [(n, dict_update [] kw)]\<rparr>
      | Some old \<Rightarrow> G\<lparr>node_dict := AList.update n (dict_update old kw) (node_dict G)\<rparr>)"

text \<open>
  \<open>G.add_edge(u, v)\<close>: an endpoint that is not yet a node is added with an empty
  attribute dictionary; the edge is stored once, whatever its orientation.
\<close>

definition ensure_node :: "('n, 'v) graph \<Rightarrow> 'n \<Rightarrow> ('n, 'v) graph" where
  "ensure_node G n = (if has_node G n then G else G\<lparr>node_dict := node_dict G @ [(n, [])]\<rparr>)"

definition add_edge :: "('n, 'v) graph \<Rightarrow> 'n \<Rightarrow> 'n \<Rightarrow> ('n, 'v) graph" where
  "add_edge G u v =
     (let G2 = ensure_node (ensure_node G u) v
      in if has_edge G2 u v then G2 else G2\<lparr>edge_list := edge_list G2 @ [(u, v)]\<rparr>)"

text \<open>\<open>G.nodes[n][key]\<close>: both subscripts raise KeyError on a missing key.\<close>

definition node_attr :: "('n, 'v) graph \<Rightarrow> 'n \<Rightarrow> string \<Rightarrow> py_error + 'v" where
  "node_attr G n key =
     (case map_of (node_dict G) n of
        None \<Rightarrow> Inl KeyError
      | Some d \<Rightarrow> (case map_of d key of None \<Rightarrow> Inl KeyError | Some v \<Rightarrow> Inr v))"

text \<open>\<open>attrs.get(key)\<close> on the attribute dictionary of one node.\<close>

definition attrs_get :: "'v attrs \<Rightarrow> string \<Rightarrow> 'v option" where
  "attrs_get d key = map_of d key"

text \<open>
  The degree of a node counts the edges at the node, a self-loop twice; the neighbours
  are the other endpoints, in the order the edges were added. \<open>G.degree()\<close> lists the
  nodes in node order with their degrees.
\<close>

definition degree :: "('n, 'v) graph \<Rightarrow> 'n \<Rightarrow> nat" where
  "degree G n = length (filter (\<lambda>e. fst e = n) (edge_list G))
              + length (filter (\<lambda>e. snd e = n) (edge_list G))"

definition neighbors :: "('n, 'v) graph \<Rightarrow> 'n \<Rightarrow> 'n list" where
  "neighbors G n =
     concat (map (\<lambda>(u, v). if u = n then [v] else if v = n then [u] else []) (edge_list G))"

definition node_list :: "('n, 'v) graph \<Rightarrow> 'n list" where
  "node_list G = map fst (node_dict G)"

definition degree_view :: "('n, 'v) graph \<Rightarrow> ('n \<times> nat) list" where
  "degree_view G = map (\<lambda>n. (n, degree G n)) (node_list G)"

text \<open>
  \<open>G.subgraph(S)\<close>: the nodes of \<open>G\<close> that are in \<open>S\<close>, with their attributes, and the
  edges of \<open>G\<close> with both endpoints in \<open>S\<close>, in the order of \<open>G\<close>.
\<close>

definition subgraph :: "('n, 'v) graph \<Rightarrow> 'n list \<Rightarrow> ('n, 'v) graph" where
  "subgraph G S =
     \<lparr>node_dict = filter (\<lambda>p. fst p \<in> set S) (node_dict G),
      edge_list = filter (\<lambda>e. fst e \<in> set S \<and> snd e \<in> set S) (edge_list G)\<rparr>"

section \<open>String operations of the loader\<close>

text \<open>
  A character stands for a code point below 256. \<open>str.strip()\<close> and \<open>str.split()\<close>
  treat the code points 9 to 13, 28 to 32, 133 and 160 as white space.
\<close>

definition is_space :: "char \<Rightarrow> bool" where
  "is_space c = (of_char c \<in> set [9, 10, 11, 12, 13, 28, 29, 30, 31, 32, 133, 160 :: nat])"

definition strip :: "string \<Rightarrow> string" where
  "strip s = rev (dropWhile is_space (rev (dropWhile is_space s)))"

text \<open>\<open>s.split(sep)\<close> for a one-character separator: empty fields are kept.\<close>

fun split_on :: "char \<Rightarrow> string \<Rightarrow> string list" where
  "split_on c [] = [[]]"
| "split_on c (x # xs) =
     (if x = c then [] # split_on c xs
      else (case split_on c xs of [] \<Rightarrow> [[x]] | w # ws \<Rightarrow> (x # w) # ws))"

text \<open>\<open>s.split()\<close>: the maximal runs of characters that are not white space.\<close>

fun split_ws :: "string \<Rightarrow> string list" where
  "split_ws [] = []"
| "split_ws (x # xs) =
     (if is_space x then split_ws xs
      else (case xs of
              [] \<Rightarrow> [[x]]
            | y # ys \<Rightarrow>
                if is_space y then [x] # split_ws xs
                else (case split_ws xs of [] \<Rightarrow> [[x]] | w # ws \<Rightarrow> (x # w) # ws)))"

section \<open>The network loader\<close>

text \<open>
  One iteration of the loop over the city file (source lines 32 to 43) and one of the
  loop over the edge file (lines 46 to 53). A file is the list of its lines.
\<close>

definition city_line :: "(string, string) graph \<Rightarrow> string \<Rightarrow> (string, string) graph" where
  "city_line G line0 =
     (let line = strip line0
      in if line = [] then G
         else (case split_on CHR ''|'' line of
                 [code, node_id, city_name] \<Rightarrow>
                   add_node G node_id [(''code'', code), (''city'', city_name)]
               | _ \<Rightarrow> G))"

definition edge_line :: "(string, string) graph \<Rightarrow> string \<Rightarrow> (string, string) graph" where
  "edge_line G line0 =
     (let line = strip line0
      in if line = [] then G
         else (case split_ws line of
                 [node1, node2] \<Rightarrow> add_edge G node1 node2
               | _ \<Rightarrow> G))"

definition load_cities :: "string list \<Rightarrow> (string, string) graph" where
  "load_cities cities = fold (\<lambda>l G. city_line G l) cities empty_graph"

definition build_graph_lines :: "string list \<Rightarrow> string list \<Rightarrow> (string, string) graph" where
  "build_graph_lines cities net = fold (\<lambda>l G. edge_line G l) net (load_cities cities)"

text \<open>
  The file system maps a path to the lines of the file, if there is one; \<open>open\<close> on a
  missing file raises. The city file is opened and read first.
\<close>

type_synonym file_system = "string \<Rightarrow> string list option"

definition build_graph ::
  "file_system \<Rightarrow> string \<Rightarrow> string \<Rightarrow> py_error + (string, string) graph" where
  "build_graph fs cities_file network_file =
     (case fs cities_file of
        None \<Rightarrow> Inl FileNotFoundError
      | Some cities \<Rightarrow>
          (case fs network_file of
             None \<Rightarrow> Inl FileNotFoundError
           | Some net \<Rightarrow> Inr (build_graph_lines cities net)))"

section \<open>Library algorithms: breadth-first search\<close>

text \<open>The inner loop of a breadth-first level: a candidate is taken when it has not been seen, and is seen from then on.\<close>

fun visit :: "'n list \<Rightarrow> 'n list \<Rightarrow> 'n list" where
  "visit seen [] = []"
| "visit seen (w # ws) = (if w \<in> set seen then visit seen ws else w # visit (w # seen) ws)"

definition next_level :: "('n, 'v) graph \<Rightarrow> 'n list \<Rightarrow> 'n list \<Rightarrow> 'n list" where
  "next_level G seen frontier = visit seen (concat (map (neighbors G) frontier))"

definition endpoints :: "('n, 'v) graph \<Rightarrow> 'n set" where
  "endpoints G = fst ` set (edge_list G) \<union> snd ` set (edge_list G)"

lemma visit_subset: "set (visit seen ws) \<subseteq> set ws - set seen"
  by (induction seen ws rule: visit.induct) auto

lemma neighbors_endpoints: "set (neighbors G v) \<subseteq> endpoints G"
  by (force simp: neighbors_def endpoints_def split: if_splits)

lemma next_level_subset: "set (next_level G seen frontier) \<subseteq> endpoints G - set seen"
  using visit_subset[of seen "concat (map (neighbors G) frontier)"] neighbors_endpoints[of G]
  by (auto simp: next_level_def)

lemma bfs_measure:
  assumes "next_level G seen frontier \<noteq> []"
  shows "card (endpoints G - set (seen @ next_level G seen frontier)) < card (endpoints G - set seen)"
proof -
  obtain w where w: "w \<in> set (next_level G seen frontier)"
    using assms by (cases "next_level G seen frontier") auto
  have fin: "finite (endpoints G - set seen)" by (simp add: endpoints_def)
  have "endpoints G - set (seen @ next_level G seen frontier) \<subset> endpoints G - set seen"
    using w next_level_subset[of G seen frontier] by auto
  then show ?thesis
    using fin by (rule psubset_card_mono[rotated])
qed

function bfs_layers :: "('n, 'v) graph \<Rightarrow> 'n list \<Rightarrow> 'n list \<Rightarrow> 'n list list" where
  "bfs_layers G seen frontier =
     (if frontier = [] then []
      else frontier # bfs_layers G (seen @ next_level G seen frontier) (next_level G seen frontier))"
  by pat_completeness auto
termination
  by (relation "measure (\<lambda>(G, seen, frontier).
        card (endpoints G - set seen) * 2 + (if frontier = [] then 0 else 1))")
     (use bfs_measure in force)+

declare bfs_layers.simps [simp del]

text \<open>
  The same search keeping, for every node, the path on which it was reached
  (the library's \<open>single_source_shortest_path\<close>).
\<close>

fun visit_paths :: "'n list \<Rightarrow> ('n \<times> 'n list) list \<Rightarrow> ('n \<times> 'n list) list" where
  "visit_paths seen [] = []"
| "visit_paths seen (c # cs) =
     (if fst c \<in> set seen then visit_paths seen cs else c # visit_paths (fst c # seen) cs)"

definition extensions :: "('n, 'v) graph \<Rightarrow> ('n \<times> 'n list) list \<Rightarrow> ('n \<times> 'n list) list" where
  "extensions G frontier =
     concat (map (\<lambda>(v, p). map (\<lambda>w. (w, p @ [w])) (neighbors G v)) frontier)"

definition next_paths ::
  "('n, 'v) graph \<Rightarrow> 'n list \<Rightarrow> ('n \<times> 'n list) list \<Rightarrow> ('n \<times> 'n list) list" where
  "next_paths G seen frontier = visit_paths seen (extensions G frontier)"

lemma visit_paths_keys: "map fst (visit_paths seen cs) = visit seen (map fst cs)"
  by (induction seen cs rule: visit_paths.induct) auto

lemma extensions_keys: "map fst (extensions G frontier) = concat (map (neighbors G) (map fst frontier))"
  by (induction frontier) (auto simp: extensions_def comp_def)

lemma next_paths_keys:
  "map fst (next_paths G seen frontier) = next_level G seen (map fst frontier)"
  by (simp add: next_paths_def next_level_def visit_paths_keys extensions_keys)

lemma paths_measure:
  assumes "next_paths G seen frontier \<noteq> []"
  shows "card (endpoints G - set (seen @ map fst (next_paths G seen frontier)))
         < card (endpoints G - set seen)"
proof -
  have "next_level G seen (map fst frontier) \<noteq> []"
    using assms next_paths_keys[of G seen frontier] by auto
  then show ?thesis
    using bfs_measure[of G seen "map fst frontier"] by (simp add: next_paths_keys)
qed

function bfs_paths ::
  "('n, 'v) graph \<Rightarrow> 'n list \<Rightarrow> ('n \<times> 'n list) list \<Rightarrow> ('n \<times> 'n list) list list" where
  "bfs_paths G seen frontier =
     (if frontier = [] then []
      else frontier # bfs_paths G (seen @ map fst (next_paths G seen frontier))
                                (next_paths G seen frontier))"
  by pat_completeness auto
termination
  by (relation "measure (\<lambda>(G, seen, frontier).
        card (endpoints G - set seen) * 2 + (if frontier = [] then 0 else 1))")
     (use paths_measure in force)+

declare bfs_paths.simps [simp del]

section \<open>Library algorithms: components, distances, paths\<close>

text \<open>
  \<open>connected_components\<close> scans the nodes in node order and yields the search result
  of every node not seen before; \<open>max(..., key=len)\<close> keeps the first of the longest
  and raises ValueError when there is none.
\<close>

definition component_of :: "('n, 'v) graph \<Rightarrow> 'n \<Rightarrow> 'n list" where
  "component_of G v = concat (bfs_layers G [v] [v])"

fun components_from :: "('n, 'v) graph \<Rightarrow> 'n list \<Rightarrow> 'n list \<Rightarrow> 'n list list" where
  "components_from G seen [] = []"
| "components_from G seen (v # vs) =
     (if v \<in> set seen then components_from G seen vs
      else component_of G v # components_from G (seen @ component_of G v) vs)"

definition connected_components :: "('n, 'v) graph \<Rightarrow> 'n list list" where
  "connected_components G = components_from G [] (node_list G)"


definition max_by_len :: "'a list list \<Rightarrow> py_error + 'a list" where
  "max_by_len cs =
     (case cs of
        [] \<Rightarrow> Inl ValueError
      | c # rest \<Rightarrow> Inr (fold (\<lambda>x best. if length best < length x then x else best) rest c))"








text \<open>
  \<open>shortest_path(G, source, target)\<close> returns one shortest path: here the one the
  level-by-level search from the source reaches the target on.
\<close>

definition shortest_path :: "('n, 'v) graph \<Rightarrow> 'n \<Rightarrow> 'n \<Rightarrow> py_error + 'n list" where
  "shortest_path G s t =
     (if \<not> has_node G s \<or> \<not> has_node G t then Inl NodeNotFound
      else (case map_of (concat (bfs_paths G [s] [(s, [s])])) t of
              None \<Rightarrow> Inl NetworkXNoPath
            | Some p \<Rightarrow> Inr p))"

section \<open>The queries of the network analyser\<close>

text \<open>
  What a query hands to the outside: the printed lines (a number or a list of names
  printed after a label is kept as a value, not formatted) and the series given to the
  plotting library. A query yields what it has printed and the exception it raised, if any.
\<close>

datatype out_line =
  Text string
  | Labelled string nat
  | CityDegree string nat
  | CityScore string rat
  | Route "string list"
  | Plot "nat list" "rat list"

type_synonym run = "out_line list \<times> py_error option"



text \<open>
  \<open>xs.sort(key=k, reverse=True)\<close> reverses the list, sorts it stably in ascending
  order of the key and reverses the result.
\<close>

definition sort_reverse :: "('a \<Rightarrow> 'k::linorder) \<Rightarrow> 'a list \<Rightarrow> 'a list" where
  "sort_reverse k xs = rev (sort_key k (rev xs))"

text \<open>
  Every query but Q1 and Q6 starts from the largest connected component:
  \<open>G.subgraph(max(nx.connected_components(G), key=len))\<close>.
\<close>

definition largest_component :: "('n, 'v) graph \<Rightarrow> py_error + ('n, 'v) graph" where
  "largest_component G =
     (case max_by_len (connected_components G) of
        Inl e \<Rightarrow> Inl e
      | Inr largest_cc_nodeset \<Rightarrow> Inr (subgraph G largest_cc_nodeset))"

definition top_10_by_degree :: "('n, 'v) graph \<Rightarrow> ('n \<times> nat) list" where
  "top_10_by_degree G_largest = take 10 (sort_reverse snd (degree_view G_largest))"

text \<open>The printing loop of Q3: the lines printed before a lookup fails stay printed.\<close>

fun print_city_degrees :: "(string, string) graph \<Rightarrow> (string \<times> nat) list \<Rightarrow> run" where
  "print_city_degrees G [] = ([], None)"
| "print_city_degrees G ((node_id, deg) # rest) =
     (case node_attr G node_id ''city'' of
        Inl e \<Rightarrow> ([], Some e)
      | Inr city_name \<Rightarrow>
          (case print_city_degrees G rest of
             (out, err) \<Rightarrow> (CityDegree city_name deg # out, err)))"

definition solve_problem2_q3 :: "(string, string) graph \<Rightarrow> run" where
  "solve_problem2_q3 G =
     (case largest_component G of
        Inl e \<Rightarrow> ([], Some e)
      | Inr G_largest \<Rightarrow>
          (case print_city_degrees G_largest (top_10_by_degree G_largest) of
             (out, err) \<Rightarrow>
               ([Text ''=== Problem2 (Q3) ==='',
                 Text ''Top 10 nodes in the largest component by degree:''] @ out, err)))"

subsection \<open>Degree distribution\<close>

text \<open>
  The frequency dictionary (the loop of the tree program, and \<open>Counter\<close> in Q4) in
  the order of first occurrence. The division is the exact quotient; dividing by zero
  raises.
\<close>

definition count_step :: "nat \<Rightarrow> (nat \<times> nat) list \<Rightarrow> (nat \<times> nat) list" where
  "count_step d degree_count =
     AList.update d (case map_of degree_count d of None \<Rightarrow> 1 | Some c \<Rightarrow> c + 1) degree_count"

definition count_degrees :: "nat list \<Rightarrow> (nat \<times> nat) list" where
  "count_degrees degrees = fold count_step degrees []"

definition py_div :: "nat \<Rightarrow> nat \<Rightarrow> py_error + rat" where
  "py_div a b = (if b = 0 then Inl ZeroDivisionError else Inr (of_nat a / of_nat b))"

fun fractions :: "(nat \<times> nat) list \<Rightarrow> nat \<Rightarrow> nat list \<Rightarrow> py_error + rat list" where
  "fractions degree_count n [] = Inr []"
| "fractions degree_count n (d # ds) =
     (case map_of degree_count d of
        None \<Rightarrow> Inl KeyError
      | Some c \<Rightarrow>
          (case py_div c n of
             Inl e \<Rightarrow> Inl e
           | Inr f \<Rightarrow>
               (case fractions degree_count n ds of
                  Inl e \<Rightarrow> Inl e
                | Inr fs \<Rightarrow> Inr (f # fs))))"

definition plot_degree_distribution :: "('n, 'v) graph \<Rightarrow> py_error + nat list \<times> rat list" where
  "plot_degree_distribution G =
     (let degrees = map snd (degree_view G);
          degree_count = count_degrees degrees;
          x = sort (map fst degree_count)
      in case fractions degree_count (number_of_nodes G) x of
           Inl e \<Rightarrow> Inl e
         | Inr y \<Rightarrow> Inr (x, y))"

text \<open>The loop of Q4 (lines 161 to 166); a \<open>Counter\<close> reads a missing key as 0.\<close>

fun q4_points :: "(nat \<times> nat) list \<Rightarrow> nat \<Rightarrow> nat list \<Rightarrow> py_error + (nat \<times> rat) list" where
  "q4_points degree_counts n_nodes [] = Inr []"
| "q4_points degree_counts n_nodes (deg # rest) =
     (let count = (case map_of degree_counts deg of None \<Rightarrow> 0 | Some c \<Rightarrow> c)
      in case py_div count n_nodes of
           Inl e \<Rightarrow> Inl e
         | Inr fraction \<Rightarrow>
             (case q4_points degree_counts n_nodes rest of
                Inl e \<Rightarrow> Inl e
              | Inr ps \<Rightarrow> Inr (if 0 < fraction then (deg, fraction) # ps else ps)))"

definition q4_series :: "('n, 'v) graph \<Rightarrow> py_error + nat list \<times> rat list" where
  "q4_series G =
     (case largest_component G of
        Inl e \<Rightarrow> Inl e
      | Inr G_largest \<Rightarrow>
          (let degrees = map snd (degree_view G_largest);
               degree_counts = count_degrees degrees;
               n_nodes = number_of_nodes G_largest
           in case q4_points degree_counts n_nodes (sort (map fst degree_counts)) of
                Inl e \<Rightarrow> Inl e
              | Inr ps \<Rightarrow> Inr (map fst ps, map snd ps)))"


subsection \<open>Diameter and a longest shortest path\<close>

fun city_names :: "(string, string) graph \<Rightarrow> string list \<Rightarrow> py_error + string list" where
  "city_names G [] = Inr []"
| "city_names G (n # ns) =
     (case node_attr G n ''city'' of
        Inl e \<Rightarrow> Inl e
      | Inr c \<Rightarrow> (case city_names G ns of Inl e \<Rightarrow> Inl e | Inr cs \<Rightarrow> Inr (c # cs)))"




subsection \<open>The route from CBR to CPT\<close>

text \<open>The loop of lines 267 to 271 over the nodes and their attribute dictionaries.\<close>

definition q6_scan ::
  "('n \<times> string attrs) list \<Rightarrow> 'n option \<times> 'n option \<Rightarrow> 'n option \<times> 'n option" where
  "q6_scan nodes init =
     fold (\<lambda>(node_id, attrs) (start_node, end_node).
             if attrs_get attrs ''code'' = Some ''CBR'' then (Some node_id, end_node)
             else if attrs_get attrs ''code'' = Some ''CPT'' then (start_node, Some node_id)
             else (start_node, end_node))
          nodes init"

definition q6_endpoints :: "('n, string) graph \<Rightarrow> 'n option \<times> 'n option" where
  "q6_endpoints G = q6_scan (node_dict G) (None, None)"

definition codes_not_found :: out_line where
  "codes_not_found =
     Text ''Could not find 'CBR' or 'CPT' in the graph. Check data or code attribute.''"

definition no_path_found :: out_line where
  "no_path_found =
     Text ''No path found between Canberra (CBR) and Cape Town (CPT). They may be in different components.''"

definition solve_problem2_q6 :: "(string, string) graph \<Rightarrow> run" where
  "solve_problem2_q6 G =
     (case q6_endpoints G of
        (Some start_node, Some end_node) \<Rightarrow>
          (case shortest_path G start_node end_node of
             Inl NetworkXNoPath \<Rightarrow>
               ([no_path_found], None)
           | Inl e \<Rightarrow> ([], Some e)
           | Inr path_nodes \<Rightarrow>
               (let num_flights = length path_nodes - 1
                in case city_names G path_nodes of
                     Inl e \<Rightarrow> ([], Some e)
                   | Inr path_cities \<Rightarrow>
                       ([Text ''=== Problem2 (Q6) ==='',
                         Labelled ''Smallest number of flights from Canberra (CBR) to Cape Town (CPT):'' num_flights,
                         Text ''Route (city/airport names only):'',
                         Route path_cities], None)))
      | _ \<Rightarrow>
          ([codes_not_found], None))"

subsection \<open>Betweenness\<close>



section \<open>The tree generator\<close>

text \<open>
  The state of the loops of \<open>generate_cayley_tree\<close>: the graph, the list
  \<open>new_level\<close> and the counter \<open>next_node\<close>. Node identifiers and levels are Python
  integers.
\<close>

record tree_state =
  tree :: "(int, int) graph"
  new_level :: "int list"
  next_node :: int

text \<open>The body of the innermost loop (lines 24 to 27).\<close>

definition add_child :: "int \<Rightarrow> int \<Rightarrow> tree_state \<Rightarrow> tree_state" where
  "add_child d node s =
     \<lparr>tree = add_edge (add_node (tree s) (next_node s) [(''level'', d)]) node (next_node s),
      new_level = new_level s @ [next_node s],
      next_node = next_node s + 1\<rparr>"

text \<open>
  Lines 22 to 27 for one node of the current level; \<open>range(n)\<close> is empty for a
  negative \<open>n\<close>.
\<close>

definition expand_node :: "int \<Rightarrow> int \<Rightarrow> int \<Rightarrow> tree_state \<Rightarrow> py_error + tree_state" where
  "expand_node k d node s =
     (case node_attr (tree s) node ''level'' of
        Inl e \<Rightarrow> Inl e
      | Inr level \<Rightarrow>
          (let children_count = (if level = 0 then k else k - 1)
           in Inr ((add_child d node ^^ nat children_count) s)))"

fun expand_level :: "int \<Rightarrow> int \<Rightarrow> int list \<Rightarrow> tree_state \<Rightarrow> py_error + tree_state" where
  "expand_level k d [] s = Inr s"
| "expand_level k d (node # rest) s =
     (case expand_node k d node s of
        Inl e \<Rightarrow> Inl e
      | Inr s' \<Rightarrow> expand_level k d rest s')"

text \<open>The outer loop over the levels \<open>d\<close>, from the graph, the current level and the counter.\<close>

fun grow ::
  "int \<Rightarrow> int list \<Rightarrow> (int, int) graph \<times> int list \<times> int
     \<Rightarrow> py_error + (int, int) graph \<times> int list \<times> int" where
  "grow k [] st = Inr st"
| "grow k (d # ds) (G, current_level, nxt) =
     (case expand_level k d current_level \<lparr>tree = G, new_level = [], next_node = nxt\<rparr> of
        Inl e \<Rightarrow> Inl e
      | Inr s \<Rightarrow> grow k ds (tree s, new_level s, next_node s))"

definition generate_cayley_tree :: "int \<Rightarrow> int \<Rightarrow> py_error + (int, int) graph" where
  "generate_cayley_tree k P =
     (case grow k [1..P] (add_node empty_graph 0 [(''level'', 0)], [0], 1) of
        Inl e \<Rightarrow> Inl e
      | Inr (G, current_level, nxt) \<Rightarrow> Inr G)"

section \<open>Calling the queries on the loaded graph\<close>

text \<open>
  The program builds one graph object and hands it to each query in turn. The world of
  a run holds that object, the graph objects that queries create with \<open>copy()\<close>, and
  what has been written to the outside so far. A query reads the loaded object; Q5 and
  Q7 copy the largest component into a new object; the other queries work on views
  (Q2, Q3, Q4) or on the object itself (Q1, Q6).
\<close>

record world =
  loaded :: "(string, string) graph"
  copies :: "(string, string) graph list"
  stdout :: "out_line list"

definition no_copy :: "(string, string) graph \<Rightarrow> (string, string) graph list" where
  "no_copy G = []"


definition call ::
  "((string, string) graph \<Rightarrow> run) \<Rightarrow> ((string, string) graph \<Rightarrow> (string, string) graph list)
     \<Rightarrow> world \<Rightarrow> py_error option \<times> world" where
  "call query created w =
     (snd (query (loaded w)),
      w\<lparr>copies := copies w @ created (loaded w), stdout := stdout w @ fst (query (loaded w))\<rparr>)"



section \<open>Notions used in the statements\<close>

text \<open>
  A graph object of the library keeps two facts true that the record does not: a node
  has one entry in the node dictionary, and both endpoints of an edge are nodes.
\<close>

definition wf_graph :: "('n, 'v) graph \<Rightarrow> bool" where
  "wf_graph G = (distinct (map fst (node_dict G))
     \<and> (\<forall>e \<in> set (edge_list G). has_node G (fst e) \<and> has_node G (snd e)))"

text \<open>The lines of the city file for which the loader adds a node (line 37 holds).\<close>

definition well_formed_city_lines :: "string list \<Rightarrow> string list" where
  "well_formed_city_lines cities =
     filter (\<lambda>l. strip l \<noteq> [] \<and> length (split_on CHR ''|'' (strip l)) = 3) cities"

text \<open>Two nodes are in the same component when a chain of edges joins them.\<close>

definition reachable :: "('n, 'v) graph \<Rightarrow> 'n \<Rightarrow> 'n \<Rightarrow> bool" where
  "reachable G u v = ((u, v) \<in> {(a, b). has_edge G a b}\<^sup>*)"

text \<open>
  The nodes that carry a given code, in node order, and the first and the last of them.
\<close>

definition nodes_with_code :: "('n \<times> string attrs) list \<Rightarrow> string \<Rightarrow> 'n list" where
  "nodes_with_code nodes c = map fst (filter (\<lambda>p. attrs_get (snd p) ''code'' = Some c) nodes)"

definition first_with_code :: "('n \<times> string attrs) list \<Rightarrow> string \<Rightarrow> 'n option" where
  "first_with_code nodes c = (case nodes_with_code nodes c of [] \<Rightarrow> None | n # _ \<Rightarrow> Some n)"

definition last_with_code :: "('n \<times> string attrs) list \<Rightarrow> string \<Rightarrow> 'n option" where
  "last_with_code nodes c = (case rev (nodes_with_code nodes c) of [] \<Rightarrow> None | n # _ \<Rightarrow> Some n)"

text \<open>
  The fraction of the nodes that have degree \<open>d\<close>, from a frequency dictionary and the
  number of nodes.
\<close>

definition fraction_of :: "(nat \<times> nat) list \<Rightarrow> nat \<Rightarrow> nat \<Rightarrow> rat" where
  "fraction_of m n d = of_nat (case map_of m d of None \<Rightarrow> 0 | Some c \<Rightarrow> c) / of_nat n"

text \<open>
  Graph notions of the claims about trees. A walk is a non-empty list of nodes in which
  neighbours in the list are joined by an edge; the distance from \<open>u\<close> to \<open>v\<close> is the
  number of edges of a shortest walk. A graph is connected when every two nodes are
  joined by a chain of edges, and acyclic when no edge joins a node to itself and no
  three or more distinct nodes form a closed chain. The children of a node are its
  neighbours one level further down.
\<close>

definition walk :: "('n, 'v) graph \<Rightarrow> 'n list \<Rightarrow> bool" where
  "walk G p = (p \<noteq> [] \<and> successively (has_edge G) p)"

definition is_distance :: "('n, 'v) graph \<Rightarrow> 'n \<Rightarrow> 'n \<Rightarrow> nat \<Rightarrow> bool" where
  "is_distance G u v d =
     ((\<exists>p. walk G p \<and> hd p = u \<and> last p = v \<and> length p = d + 1)
      \<and> (\<forall>p. walk G p \<and> hd p = u \<and> last p = v \<longrightarrow> d + 1 \<le> length p))"

definition connected :: "('n, 'v) graph \<Rightarrow> bool" where
  "connected G = (\<forall>u v. has_node G u \<and> has_node G v \<longrightarrow> reachable G u v)"

definition cycle :: "('n, 'v) graph \<Rightarrow> 'n list \<Rightarrow> bool" where
  "cycle G c =
     (3 \<le> length c \<and> distinct c
      \<and> (\<forall>i < length c. has_edge G (c ! i) (c ! (Suc i mod length c))))"

definition acyclic_graph :: "('n, 'v) graph \<Rightarrow> bool" where
  "acyclic_graph G = ((\<forall>v. \<not> has_edge G v v) \<and> (\<forall>c. \<not> cycle G c))"

definition children :: "(int, int) graph \<Rightarrow> int \<Rightarrow> int list" where
  "children G v =
     (case node_attr G v ''level'' of
        Inl e \<Rightarrow> []
      | Inr l \<Rightarrow> filter (\<lambda>w. node_attr G w ''level'' = Inr (l + 1)) (neighbors G v))"

section \<open>Invariants of the tree generator\<close>

text \<open>
  A node is at a level when its attribute dictionary holds exactly that level. The
  out-degree of a node counts the edges that were added from it, which the generator
  adds from a parent to its new child. The invariant of the graph under construction,
  with \<open>n\<close> the next free identifier: the nodes are \<open>0\<close> to \<open>n - 1\<close> in this order,
  each with a level that is 0 for node 0 only; every node but 0 is the second
  endpoint of exactly one edge, whose first endpoint is smaller and one level up.
\<close>

definition at_level :: "(int, int) graph \<Rightarrow> int \<Rightarrow> int \<Rightarrow> bool" where
  "at_level G v l = (map_of (node_dict G) v = Some [(''level'', l)])"

definition out_degree :: "('n, 'v) graph \<Rightarrow> 'n \<Rightarrow> nat" where
  "out_degree G v = length (filter (\<lambda>e. fst e = v) (edge_list G))"

definition children_count :: "int \<Rightarrow> int \<Rightarrow> nat" where
  "children_count k level = nat (if level = 0 then k else k - 1)"

definition tree_inv :: "(int, int) graph \<Rightarrow> int \<Rightarrow> bool" where
  "tree_inv G n =
     (1 \<le> n
      \<and> map fst (node_dict G) = [0..n - 1]
      \<and> (\<forall>p \<in> set (node_dict G). \<exists>l. snd p = [(''level'', l)] \<and> 0 \<le> l \<and> (l = 0 \<longleftrightarrow> fst p = 0))
      \<and> map snd (edge_list G) = [1..n - 1]
      \<and> (\<forall>e \<in> set (edge_list G). 0 \<le> fst e \<and> fst e < snd e
            \<and> (\<exists>l. at_level G (fst e) l \<and> at_level G (snd e) (l + 1))))"

text \<open>
  The invariant of the loop over the current level at depth \<open>d\<close>, with \<open>todo\<close> the
  nodes still to expand; and the one of the innermost loop, which has added \<open>j\<close>
  children to \<open>node\<close>.
\<close>

definition expanding :: "int \<Rightarrow> int \<Rightarrow> int list \<Rightarrow> tree_state \<Rightarrow> bool" where
  "expanding k d todo s =
     (tree_inv (tree s) (next_node s)
      \<and> (\<forall>v l. at_level (tree s) v l \<longrightarrow> l \<le> d)
      \<and> distinct todo
      \<and> (\<forall>v \<in> set todo. at_level (tree s) v (d - 1) \<and> out_degree (tree s) v = 0)
      \<and> (\<forall>v l. at_level (tree s) v l \<and> l < d \<and> v \<notin> set todo
            \<longrightarrow> out_degree (tree s) v = children_count k l)
      \<and> (\<forall>v. at_level (tree s) v d \<longrightarrow> out_degree (tree s) v = 0)
      \<and> distinct (new_level s)
      \<and> set (new_level s) = {v. at_level (tree s) v d})"

definition expanding_node :: "int \<Rightarrow> int \<Rightarrow> int \<Rightarrow> nat \<Rightarrow> int list \<Rightarrow> tree_state \<Rightarrow> bool" where
  "expanding_node k d node j todo s =
     (tree_inv (tree s) (next_node s)
      \<and> (\<forall>v l. at_level (tree s) v l \<longrightarrow> l \<le> d)
      \<and> distinct (node # todo)
      \<and> (\<forall>v \<in> set todo. at_level (tree s) v (d - 1) \<and> out_degree (tree s) v = 0)
      \<and> at_level (tree s) node (d - 1) \<and> out_degree (tree s) node = j
      \<and> (\<forall>v l. at_level (tree s) v l \<and> l < d \<and> v \<notin> set (node # todo)
            \<longrightarrow> out_degree (tree s) v = children_count k l)
      \<and> (\<forall>v. at_level (tree s) v d \<longrightarrow> out_degree (tree s) v = 0)
      \<and> distinct (new_level s)
      \<and> set (new_level s) = {v. at_level (tree s) v d})"

section \<open>The loader: edges between unknown nodes, repeated edges, repeated loading\<close>

lemma has_node_ensure_node [simp]:
  "has_node (ensure_node G n) m \<longleftrightarrow> has_node G m \<or> m = n"
  by (auto simp: ensure_node_def has_node_def)

lemma edge_list_ensure_node [simp]: "edge_list (ensure_node G n) = edge_list G"
  by (simp add: ensure_node_def)

lemma has_edge_ensure_node [simp]: "has_edge (ensure_node G n) u v = has_edge G u v"
  by (simp add: has_edge_def)

lemma ensure_node_id: "has_node G n \<Longrightarrow> ensure_node G n = G"
  by (simp add: ensure_node_def)

lemma wf_graph_ensure_node: "wf_graph G \<Longrightarrow> wf_graph (ensure_node G n)"
  unfolding wf_graph_def
  by (auto simp: ensure_node_def has_node_def)

lemma has_edge_nodes: "wf_graph G \<Longrightarrow> has_edge G u v \<Longrightarrow> has_node G u \<and> has_node G v"
  unfolding wf_graph_def has_edge_def by auto

lemma has_edge_sym: "has_edge G u v = has_edge G v u"
  by (auto simp: has_edge_def)

lemma add_edge_existing: "wf_graph G \<Longrightarrow> has_edge G u v \<Longrightarrow> add_edge G u v = G"
  using has_edge_nodes[of G u v]
  by (simp add: add_edge_def ensure_node_id Let_def)

lemma has_edge_add_edge:
  "has_edge (add_edge G u v) a b \<longleftrightarrow> has_edge G a b \<or> (a = u \<and> b = v) \<or> (a = v \<and> b = u)"
  by (auto simp: add_edge_def Let_def has_edge_def)

lemma has_node_add_edge [simp]:
  "has_node (add_edge G u v) m \<longleftrightarrow> has_node G m \<or> m = u \<or> m = v"
  by (auto simp: add_edge_def Let_def has_node_def ensure_node_def)

lemma wf_graph_add_edge: "wf_graph G \<Longrightarrow> wf_graph (add_edge G u v)"
proof -
  assume "wf_graph G"
  then have w: "wf_graph (ensure_node (ensure_node G u) v)"
    by (intro wf_graph_ensure_node)
  show ?thesis
    using w unfolding add_edge_def Let_def wf_graph_def
    by (auto simp: has_node_def ensure_node_def)
qed

lemma keys_update: "map fst (AList.update k v al) = (if k \<in> set (map fst al) then map fst al else map fst al @ [k])"
  by (induction al) auto

lemma has_node_add_node [simp]: "has_node (add_node G n kw) m \<longleftrightarrow> has_node G m \<or> m = n"
  by (auto simp: add_node_def has_node_def AList.dom_update map_of_eq_None_iff split: option.splits)

lemma edge_list_add_node [simp]: "edge_list (add_node G n kw) = edge_list G"
  by (simp add: add_node_def split: option.splits)

lemma wf_graph_add_node: "wf_graph G \<Longrightarrow> wf_graph (add_node G n kw)"
  unfolding wf_graph_def
  apply (intro conjI)
   apply (auto simp: add_node_def keys_update map_of_eq_None_iff distinct_update split: option.splits)[1]
  apply simp
  done

lemma wf_graph_empty: "wf_graph empty_graph"
  by (simp add: wf_graph_def empty_graph_def)

lemma wf_graph_city_line: "wf_graph G \<Longrightarrow> wf_graph (city_line G l)"
  by (auto simp: city_line_def Let_def wf_graph_add_node split: list.splits)

lemma wf_graph_edge_line: "wf_graph G \<Longrightarrow> wf_graph (edge_line G l)"
  by (auto simp: edge_line_def Let_def wf_graph_add_edge split: list.splits)

lemma wf_graph_fold_city: "wf_graph G \<Longrightarrow> wf_graph (fold (\<lambda>l G. city_line G l) ls G)"
  by (induction ls arbitrary: G) (auto simp: wf_graph_city_line)

lemma wf_graph_fold_edge: "wf_graph G \<Longrightarrow> wf_graph (fold (\<lambda>l G. edge_line G l) ls G)"
  by (induction ls arbitrary: G) (auto simp: wf_graph_edge_line)

lemma wf_graph_build: "wf_graph (build_graph_lines cities net)"
  by (simp add: build_graph_lines_def load_cities_def wf_graph_fold_edge wf_graph_fold_city wf_graph_empty)

lemma build_graph_lines_snoc:
  "build_graph_lines cities (net @ [l]) = edge_line (build_graph_lines cities net) l"
  by (simp add: build_graph_lines_def)

lemma edge_line_two_tokens: "split_ws (strip l) = [a, b] \<Longrightarrow> edge_line G l = add_edge G a b"
  by (auto simp: edge_line_def Let_def)

lemma map_of_ensure_node:
  "map_of (node_dict (ensure_node G n)) m =
     (if has_node G m then map_of (node_dict G) m else if m = n then Some [] else None)"
  by (auto simp: ensure_node_def has_node_def map_add_def map_of_eq_None_iff
      split: option.splits dest!: map_of_SomeD intro: rev_image_eqI)

lemma map_of_add_edge:
  "map_of (node_dict (add_edge G u v)) m =
     (if has_node G m then map_of (node_dict G) m else if m = u \<or> m = v then Some [] else None)"
  by (auto simp: add_edge_def Let_def map_of_ensure_node)

lemma has_node_map_of: "has_node G m \<longleftrightarrow> map_of (node_dict G) m \<noteq> None"
  by (simp add: has_node_def map_of_eq_None_iff)

lemma edge_line_attrs:
  "map_of (node_dict G) m = None \<or> map_of (node_dict G) m = Some []
   \<Longrightarrow> map_of (node_dict (edge_line G l)) m = None \<or> map_of (node_dict (edge_line G l)) m = Some []"
  by (auto simp: edge_line_def Let_def map_of_add_edge has_node_map_of split: list.splits)

lemma fold_edge_line_attrs:
  "map_of (node_dict G) m = None \<or> map_of (node_dict G) m = Some []
   \<Longrightarrow> map_of (node_dict (fold (\<lambda>l G. edge_line G l) ls G)) m = None
     \<or> map_of (node_dict (fold (\<lambda>l G. edge_line G l) ls G)) m = Some []"
proof (induction ls arbitrary: G)
  case Nil
  then show ?case by simp
next
  case (Cons l ls)
  from Cons.prems have "map_of (node_dict (edge_line G l)) m = None
      \<or> map_of (node_dict (edge_line G l)) m = Some []"
    by (rule edge_line_attrs)
  then show ?case using Cons.IH[of "edge_line G l"] by simp
qed

lemma has_edge_edge_line: "has_edge G a b \<Longrightarrow> has_edge (edge_line G l) a b"
  by (auto simp: edge_line_def Let_def has_edge_add_edge split: list.splits)

lemma has_edge_fold_edge_line:
  "has_edge G a b \<Longrightarrow> has_edge (fold (\<lambda>l G. edge_line G l) ls G) a b"
  by (induction ls arbitrary: G) (auto simp: has_edge_edge_line)

lemma fold_edge_line_adds:
  "l \<in> set ls \<Longrightarrow> split_ws (strip l) = [a, b]
   \<Longrightarrow> has_edge (fold (\<lambda>l G. edge_line G l) ls G) a b"
proof (induction ls arbitrary: G)
  case Nil
  then show ?case by simp
next
  case (Cons x ls)
  show ?case
  proof (cases "l = x")
    case True
    have "has_edge (edge_line G x) a b"
      using Cons.prems(2) True by (simp add: edge_line_two_tokens has_edge_add_edge)
    then show ?thesis by (simp add: has_edge_fold_edge_line)
  next
    case False
    then show ?thesis using Cons by simp
  qed
qed

lemma has_node_edge_line: "has_node G m \<Longrightarrow> has_node (edge_line G l) m"
  by (auto simp: edge_line_def Let_def split: list.splits)

lemma has_node_fold_edge_line:
  "has_node G m \<Longrightarrow> has_node (fold (\<lambda>l G. edge_line G l) ls G) m"
  by (induction ls arbitrary: G) (auto simp: has_node_edge_line)

lemma number_of_nodes_card: "wf_graph G \<Longrightarrow> number_of_nodes G = card {m. has_node G m}"
  unfolding wf_graph_def number_of_nodes_def has_node_def
  using distinct_card[of "map fst (node_dict G)"] by simp

lemma finite_has_node: "finite {m. has_node G m}"
  by (simp add: has_node_def)

lemma more_nodes:
  assumes "wf_graph G" "wf_graph G'" "\<And>m. has_node G m \<Longrightarrow> has_node G' m"
    and "has_node G' a" "\<not> has_node G a"
  shows "number_of_nodes G < number_of_nodes G'"
proof -
  have "{m. has_node G m} \<subset> {m. has_node G' m}"
    using assms(3-5) by auto
  then have "card {m. has_node G m} < card {m. has_node G' m}"
    using finite_has_node[of G'] by (simp add: psubset_card_mono)
  then show ?thesis
    using assms(1,2) by (simp add: number_of_nodes_card)
qed

lemma wf_graph_load: "wf_graph (load_cities cities)"
  by (simp add: load_cities_def wf_graph_fold_city wf_graph_empty)

lemma unknown_endpoint:
  assumes "has_node (build_graph_lines cities net) x" "\<not> has_node (load_cities cities) x"
  shows "map_of (node_dict (build_graph_lines cities net)) x = Some []
       \<and> node_attr (build_graph_lines cities net) x ''city'' = Inl KeyError
       \<and> node_attr (build_graph_lines cities net) x ''code'' = Inl KeyError
       \<and> number_of_nodes (load_cities cities) < number_of_nodes (build_graph_lines cities net)"
proof -
  let ?G = "build_graph_lines cities net"
  have "map_of (node_dict (load_cities cities)) x = None"
    using assms(2) by (simp add: has_node_map_of)
  then have "map_of (node_dict ?G) x = None \<or> map_of (node_dict ?G) x = Some []"
    unfolding build_graph_lines_def by (intro fold_edge_line_attrs) simp
  then have a: "map_of (node_dict ?G) x = Some []"
    using assms(1) by (auto simp: has_node_map_of)
  have "number_of_nodes (load_cities cities) < number_of_nodes ?G"
  proof (rule more_nodes[OF wf_graph_load wf_graph_build _ assms(1) assms(2)])
    fix m assume "has_node (load_cities cities) m"
    then show "has_node ?G m"
      unfolding build_graph_lines_def by (rule has_node_fold_edge_line)
  qed
  then show ?thesis using a by (simp add: node_attr_def)
qed


text \<open>
  Claim C7. Loading is a function of the contents of the two files alone: whenever two
  file systems agree on the city file and on the edge file, \<open>build_graph\<close> gives the
  same result on both, so the same node count and the same edge count (or the same
  error).
\<close>

theorem build_graph_deterministic:
  assumes "fs1 cities_file = fs2 cities_file" and "fs1 network_file = fs2 network_file"
  shows "build_graph fs1 cities_file network_file = build_graph fs2 cities_file network_file
       \<and> map_sum id number_of_nodes (build_graph fs1 cities_file network_file)
           = map_sum id number_of_nodes (build_graph fs2 cities_file network_file)
       \<and> map_sum id number_of_edges (build_graph fs1 cities_file network_file)
           = map_sum id number_of_edges (build_graph fs2 cities_file network_file)"
proof -
  have "build_graph fs1 cities_file network_file = build_graph fs2 cities_file network_file"
    using assms by (simp add: build_graph_def split: option.splits)
  then show ?thesis by simp
qed

theorem build_graph_deterministic_witness:
  "(\<lambda>p. if p = ''c.dat'' then Some [''A|1|CityA'', ''B|2|CityB''] else
         if p = ''n.dat'' then Some [''1 2''] else None) ''c.dat''
     = (\<lambda>p. if p = ''c.dat'' then Some [''A|1|CityA'', ''B|2|CityB''] else
            if p = ''n.dat'' then Some [''1 2''] else Some [''other'']) ''c.dat''
   \<and> map_sum id number_of_nodes
        (build_graph (\<lambda>p. if p = ''c.dat'' then Some [''A|1|CityA'', ''B|2|CityB''] else
                          if p = ''n.dat'' then Some [''1 2''] else None) ''c.dat'' ''n.dat'')
     = map_sum id number_of_nodes
        (build_graph (\<lambda>p. if p = ''c.dat'' then Some [''A|1|CityA'', ''B|2|CityB''] else
                          if p = ''n.dat'' then Some [''1 2''] else Some [''other'']) ''c.dat'' ''n.dat'')
   \<and> map_sum id number_of_edges
        (build_graph (\<lambda>p. if p = ''c.dat'' then Some [''A|1|CityA'', ''B|2|CityB''] else
                          if p = ''n.dat'' then Some [''1 2''] else None) ''c.dat'' ''n.dat'')
     = map_sum id number_of_edges
        (build_graph (\<lambda>p. if p = ''c.dat'' then Some [''A|1|CityA'', ''B|2|CityB''] else
                          if p = ''n.dat'' then Some [''1 2''] else Some [''other'']) ''c.dat'' ''n.dat'')"
  using build_graph_deterministic
    [of "\<lambda>p. if p = ''c.dat'' then Some [''A|1|CityA'', ''B|2|CityB''] else
              if p = ''n.dat'' then Some [''1 2''] else None" "''c.dat''"
        "\<lambda>p. if p = ''c.dat'' then Some [''A|1|CityA'', ''B|2|CityB''] else
              if p = ''n.dat'' then Some [''1 2''] else Some [''other'']" "''n.dat''"]
  by simp

text \<open>
  Claim C9. An edge-file line with exactly two tokens adds the edge whether or not its
  endpoints were in the city file. An endpoint that the city file did not give becomes a
  node with an empty attribute dictionary: reading its \<open>city\<close> or \<open>code\<close> raises
  KeyError, and the graph has more nodes than the city file gave. There are inputs on
  which the node count exceeds the number of well-formed city lines and on which Q3
  stops with KeyError.
\<close>

theorem edge_line_adds_unknown_endpoints:
  assumes "l \<in> set net" and "split_ws (strip l) = [a, b]"
  shows "has_edge (build_graph_lines cities net) a b
       \<and> has_node (build_graph_lines cities net) a
       \<and> has_node (build_graph_lines cities net) b
       \<and> (\<forall>x \<in> {a, b}. \<not> has_node (load_cities cities) x \<longrightarrow>
            map_of (node_dict (build_graph_lines cities net)) x = Some []
          \<and> node_attr (build_graph_lines cities net) x ''city'' = Inl KeyError
          \<and> node_attr (build_graph_lines cities net) x ''code'' = Inl KeyError
          \<and> number_of_nodes (load_cities cities) < number_of_nodes (build_graph_lines cities net))
       \<and> (\<exists>cs ns. length (well_formed_city_lines cs) < number_of_nodes (build_graph_lines cs ns)
                 \<and> snd (solve_problem2_q3 (build_graph_lines cs ns)) = Some KeyError)"
proof -
  let ?G = "build_graph_lines cities net"
  have e: "has_edge ?G a b"
    unfolding build_graph_lines_def using assms by (rule fold_edge_line_adds)
  then have n: "has_node ?G a \<and> has_node ?G b"
    using wf_graph_build[of cities net] by (simp add: has_edge_nodes)
  have "length (well_formed_city_lines [''A|1|CityA''])
          < number_of_nodes (build_graph_lines [''A|1|CityA''] [''1 2''])
        \<and> snd (solve_problem2_q3 (build_graph_lines [''A|1|CityA''] [''1 2''])) = Some KeyError"
    by code_simp
  then have x: "\<exists>cs ns. length (well_formed_city_lines cs) < number_of_nodes (build_graph_lines cs ns)
                 \<and> snd (solve_problem2_q3 (build_graph_lines cs ns)) = Some KeyError"
    by blast
  show ?thesis
    using e n x unknown_endpoint[of cities net a] unknown_endpoint[of cities net b] by simp
qed

theorem edge_line_adds_unknown_endpoints_witness:
  "''1 2'' \<in> set [''1 2''] \<and> split_ws (strip ''1 2'') = [''1'', ''2'']
   \<and> \<not> has_node (load_cities [''A|1|CityA'']) ''2''
   \<and> has_edge (build_graph_lines [''A|1|CityA''] [''1 2'']) ''1'' ''2''
   \<and> has_node (build_graph_lines [''A|1|CityA''] [''1 2'']) ''2''
   \<and> node_attr (build_graph_lines [''A|1|CityA''] [''1 2'']) ''2'' ''city'' = Inl KeyError
   \<and> number_of_nodes (load_cities [''A|1|CityA''])
       < number_of_nodes (build_graph_lines [''A|1|CityA''] [''1 2''])"
proof -
  have h1: "''1 2'' \<in> set [''1 2'']" by simp
  have h2: "split_ws (strip ''1 2'') = [''1'', ''2'']" by code_simp
  have h3: "\<not> has_node (load_cities [''A|1|CityA'']) ''2''" by code_simp
  show ?thesis
    using edge_line_adds_unknown_endpoints[OF h1 h2, of "[''A|1|CityA'']"] h2 h3 by simp
qed

text \<open>
  Claim C10. When the loaded graph already has an edge between \<open>a\<close> and \<open>b\<close>, one more
  edge-file line with the tokens \<open>a b\<close>, or with the tokens \<open>b a\<close>, changes neither the
  node count nor the edge count.
\<close>

theorem repeated_edge_line_changes_nothing:
  assumes "has_edge (build_graph_lines cities net) a b"
    and "split_ws (strip l) = [a, b] \<or> split_ws (strip l) = [b, a]"
  shows "number_of_nodes (build_graph_lines cities (net @ [l]))
           = number_of_nodes (build_graph_lines cities net)
       \<and> number_of_edges (build_graph_lines cities (net @ [l]))
           = number_of_edges (build_graph_lines cities net)"
proof -
  let ?G = "build_graph_lines cities net"
  have "edge_line ?G l = ?G"
    using assms wf_graph_build[of cities net] add_edge_existing[of ?G a b] add_edge_existing[of ?G b a]
    by (auto simp: edge_line_two_tokens has_edge_sym)
  then show ?thesis by (simp add: build_graph_lines_snoc)
qed

theorem repeated_edge_line_changes_nothing_witness:
  "has_edge (build_graph_lines [''A|1|CityA'', ''B|2|CityB''] [''1 2'']) ''1'' ''2''
   \<and> split_ws (strip '' 2  1 '') = [''2'', ''1'']
   \<and> number_of_nodes (build_graph_lines [''A|1|CityA'', ''B|2|CityB''] ([''1 2''] @ ['' 2  1 '']))
       = number_of_nodes (build_graph_lines [''A|1|CityA'', ''B|2|CityB''] [''1 2''])
   \<and> number_of_edges (build_graph_lines [''A|1|CityA'', ''B|2|CityB''] ([''1 2''] @ ['' 2  1 '']))
       = number_of_edges (build_graph_lines [''A|1|CityA'', ''B|2|CityB''] [''1 2''])"
proof -
  have h1: "has_edge (build_graph_lines [''A|1|CityA'', ''B|2|CityB''] [''1 2'']) ''1'' ''2''"
    by code_simp
  have h2: "split_ws (strip '' 2  1 '') = [''2'', ''1'']" by code_simp
  show ?thesis
    using repeated_edge_line_changes_nothing[OF h1 disjI2[OF h2]] h1 h2 by simp
qed

section \<open>The level-by-level search reaches exactly the nodes joined to its source\<close>

lemma in_neighbors_aux:
  "v \<in> set (concat (map (\<lambda>(a, b). if a = u then [b] else if b = u then [a] else []) es))
     \<longleftrightarrow> (u, v) \<in> set es \<or> (v, u) \<in> set es"
  by (induction es) auto

lemma in_neighbors: "v \<in> set (neighbors G u) \<longleftrightarrow> has_edge G u v"
  unfolding neighbors_def has_edge_def by (rule in_neighbors_aux)

lemma set_visit: "set (visit seen ws) = set ws - set seen"
  by (induction seen ws rule: visit.induct) auto


lemma set_next_level:
  "set (next_level G seen fr) = {v. \<exists>u \<in> set fr. has_edge G u v} - set seen"
  by (auto simp: next_level_def set_visit in_neighbors)


lemma reachable_refl: "reachable G u u"
  by (simp add: reachable_def)

lemma reachable_step: "reachable G u v \<Longrightarrow> has_edge G v w \<Longrightarrow> reachable G u w"
  unfolding reachable_def by (rule rtrancl_into_rtrancl) auto

lemma reachable_trans: "reachable G u v \<Longrightarrow> reachable G v w \<Longrightarrow> reachable G u w"
  unfolding reachable_def by (rule rtrancl_trans)

lemma reachable_sym: "reachable G u v \<Longrightarrow> reachable G v u"
proof -
  have "sym {(a, b). has_edge G a b}"
    by (auto simp: sym_def has_edge_def)
  then have "sym ({(a, b). has_edge G a b}\<^sup>*)" by (rule sym_rtrancl)
  then show "reachable G u v \<Longrightarrow> reachable G v u"
    unfolding reachable_def by (rule symD)
qed

lemma bfs_layers_sound:
  "v \<in> set (concat (bfs_layers G seen fr)) \<Longrightarrow> \<exists>u \<in> set fr. reachable G u v"
proof (induction G seen fr rule: bfs_layers.induct)
  case (1 G seen fr)
  show ?case
  proof (cases "fr = []")
    case True
    with "1.prems" show ?thesis by (simp add: bfs_layers.simps)
  next
    case False
    let ?nx = "next_level G seen fr"
    from "1.prems" False have "v \<in> set fr \<or> v \<in> set (concat (bfs_layers G (seen @ ?nx) ?nx))"
      by (subst (asm) bfs_layers.simps) auto
    then show ?thesis
    proof
      assume "v \<in> set fr"
      then show ?thesis by (auto intro: reachable_refl)
    next
      assume "v \<in> set (concat (bfs_layers G (seen @ ?nx) ?nx))"
      then obtain w where w: "w \<in> set ?nx" "reachable G w v"
        using "1.IH"[OF False] by blast
      then obtain u where u: "u \<in> set fr" "has_edge G u w"
        by (auto simp: set_next_level)
      have "reachable G u w" using reachable_step[OF reachable_refl u(2)] .
      then have "reachable G u v" using w(2) by (rule reachable_trans)
      then show ?thesis using u(1) by blast
    qed
  qed
qed

lemma bfs_layers_closed:
  assumes "set fr \<subseteq> set seen"
    and "\<And>u v. u \<in> set seen \<Longrightarrow> u \<notin> set fr \<Longrightarrow> has_edge G u v \<Longrightarrow> v \<in> set seen"
    and "u \<in> set seen \<union> set (concat (bfs_layers G seen fr))"
    and "has_edge G u v"
  shows "v \<in> set seen \<union> set (concat (bfs_layers G seen fr))"
  using assms
proof (induction G seen fr arbitrary: u v rule: bfs_layers.induct)
  case (1 G seen fr)
  show ?case
  proof (cases "fr = []")
    case True
    with "1.prems" show ?thesis by (auto simp: bfs_layers.simps)
  next
    case False
    let ?nx = "next_level G seen fr"
    have layers: "bfs_layers G seen fr = fr # bfs_layers G (seen @ ?nx) ?nx"
      using False by (subst bfs_layers.simps) simp
    have a1: "set ?nx \<subseteq> set (seen @ ?nx)" by simp
    have a2: "\<And>a b. a \<in> set (seen @ ?nx) \<Longrightarrow> a \<notin> set ?nx \<Longrightarrow> has_edge G a b
                \<Longrightarrow> b \<in> set (seen @ ?nx)"
    proof -
      fix a b assume a: "a \<in> set (seen @ ?nx)" "a \<notin> set ?nx" "has_edge G a b"
      then have as: "a \<in> set seen" by simp
      show "b \<in> set (seen @ ?nx)"
      proof (cases "a \<in> set fr")
        case True
        then show ?thesis using a(3) by (auto simp: set_next_level)
      next
        case False
        then show ?thesis using "1.prems"(2)[OF as False a(3)] by simp
      qed
    qed
    have a3: "u \<in> set (seen @ ?nx) \<union> set (concat (bfs_layers G (seen @ ?nx) ?nx))"
      using "1.prems"(1,3) layers by auto
    have "v \<in> set (seen @ ?nx) \<union> set (concat (bfs_layers G (seen @ ?nx) ?nx))"
      using "1.IH"[OF False a1 a2 a3 "1.prems"(4)] by simp
    moreover have "?nx \<noteq> [] \<Longrightarrow> set ?nx \<subseteq> set (concat (bfs_layers G (seen @ ?nx) ?nx))"
      by (subst bfs_layers.simps) auto
    ultimately show ?thesis
      unfolding layers by (cases "?nx = []") auto
  qed
qed

lemma hd_component: "s \<in> set (component_of G s)"
  unfolding component_of_def by (subst bfs_layers.simps) simp

lemma component_closed:
  assumes "u \<in> set (component_of G s)" "has_edge G u v"
  shows "v \<in> set (component_of G s)"
proof -
  have "v \<in> set [s] \<union> set (concat (bfs_layers G [s] [s]))"
    by (rule bfs_layers_closed[where u = u]) (use assms in \<open>auto simp: component_of_def\<close>)
  then show ?thesis using hd_component[of s G] by (auto simp: component_of_def)
qed

lemma component_reachable: "set (component_of G s) = {v. reachable G s v}"
proof (intro set_eqI iffI)
  fix v assume "v \<in> set (component_of G s)"
  then show "v \<in> {v. reachable G s v}"
    using bfs_layers_sound[of v G "[s]" "[s]"] by (simp add: component_of_def)
next
  fix v assume "v \<in> {v. reachable G s v}"
  then have "(s, v) \<in> {(a, b). has_edge G a b}\<^sup>*" by (simp add: reachable_def)
  then show "v \<in> set (component_of G s)"
  proof (induction rule: rtrancl_induct)
    case base
    then show ?case by (rule hd_component)
  next
    case (step y z)
    then show ?case using component_closed[of y G s z] by simp
  qed
qed



section \<open>Q6: which nodes it joins, and how it fails\<close>

lemma nodes_with_code_snoc:
  "nodes_with_code (xs @ [x]) c
     = nodes_with_code xs c @ (if attrs_get (snd x) ''code'' = Some c then [fst x] else [])"
  by (simp add: nodes_with_code_def)

lemma last_with_code_snoc:
  "last_with_code (xs @ [x]) c
     = (if attrs_get (snd x) ''code'' = Some c then Some (fst x) else last_with_code xs c)"
  by (simp add: last_with_code_def nodes_with_code_snoc)

lemma q6_scan_snoc:
  "q6_scan (xs @ [x]) init =
     (case q6_scan xs init of
        (start_node, end_node) \<Rightarrow>
          if attrs_get (snd x) ''code'' = Some ''CBR'' then (Some (fst x), end_node)
          else if attrs_get (snd x) ''code'' = Some ''CPT'' then (start_node, Some (fst x))
          else (start_node, end_node))"
  by (cases x) (simp add: q6_scan_def split: prod.splits)

lemma q6_scan_last:
  "q6_scan nodes (s, e) =
     (case last_with_code nodes ''CBR'' of None \<Rightarrow> s | Some n \<Rightarrow> Some n,
      case last_with_code nodes ''CPT'' of None \<Rightarrow> e | Some n \<Rightarrow> Some n)"
proof (induction nodes rule: rev_induct)
  case Nil
  then show ?case by (simp add: q6_scan_def last_with_code_def nodes_with_code_def)
next
  case (snoc x xs)
  then show ?case by (simp add: q6_scan_snoc last_with_code_snoc)
qed

lemma q6_endpoints_last:
  "q6_endpoints G = (last_with_code (node_dict G) ''CBR'', last_with_code (node_dict G) ''CPT'')"
  by (simp add: q6_endpoints_def q6_scan_last split: option.splits)

lemma last_with_code_node: "last_with_code (node_dict G) c = Some n \<Longrightarrow> has_node G n"
proof -
  assume "last_with_code (node_dict G) c = Some n"
  then have "n \<in> set (rev (nodes_with_code (node_dict G) c))"
    by (auto simp: last_with_code_def split: list.splits)
  then show ?thesis by (auto simp: nodes_with_code_def has_node_def)
qed

lemma last_with_code_None: "last_with_code nodes c = None \<longleftrightarrow> nodes_with_code nodes c = []"
  by (auto simp: last_with_code_def split: list.splits)

lemma bfs_paths_keys:
  "map (map fst) (bfs_paths G seen fr) = bfs_layers G seen (map fst fr)"
proof (induction G seen fr rule: bfs_paths.induct)
  case (1 G seen fr)
  show ?case
  proof (cases "fr = []")
    case True
    then show ?thesis by (simp add: bfs_paths.simps bfs_layers.simps)
  next
    case False
    have "bfs_paths G seen fr
            = fr # bfs_paths G (seen @ map fst (next_paths G seen fr)) (next_paths G seen fr)"
      using False by (subst bfs_paths.simps) simp
    moreover have "bfs_layers G seen (map fst fr)
            = map fst fr # bfs_layers G (seen @ next_level G seen (map fst fr))
                                      (next_level G seen (map fst fr))"
      using False by (subst bfs_layers.simps) simp
    ultimately show ?thesis
      using "1.IH"[OF False] by (simp add: next_paths_keys)
  qed
qed

lemma bfs_paths_key_set:
  "fst ` set (concat (bfs_paths G [s] [(s, [s])])) = set (component_of G s)"
proof -
  have "fst ` set (concat (bfs_paths G [s] [(s, [s])]))
          = set (concat (map (map fst) (bfs_paths G [s] [(s, [s])])))"
    by (simp add: image_UN)
  then show ?thesis by (simp add: bfs_paths_keys component_of_def)
qed

lemma shortest_path_no_path:
  assumes "has_node G s" "has_node G t" "\<not> reachable G s t"
  shows "shortest_path G s t = Inl NetworkXNoPath"
proof -
  have "t \<notin> set (component_of G s)"
    using assms(3) by (simp add: component_reachable)
  then have "t \<notin> fst ` set (concat (bfs_paths G [s] [(s, [s])]))"
    by (simp only: bfs_paths_key_set not_False_eq_True)
  then have "map_of (concat (bfs_paths G [s] [(s, [s])])) t = None"
    by (simp only: map_of_eq_None_iff not_False_eq_True)
  then show ?thesis using assms(1,2) by (simp add: shortest_path_def)
qed

lemma reachable_component: "reachable G s t \<longleftrightarrow> t \<in> set (component_of G s)"
  by (simp add: component_reachable)

text \<open>
  Claim C2, as the code has it. The loop of Q6 has no \<open>break\<close>: a later node with the
  code replaces an earlier one. The start node is the last node in node order whose
  code is CBR and the end node the last whose code is CPT (none when no node has the
  code).
\<close>

theorem q6_selects_last_match:
  "q6_endpoints G = (last_with_code (node_dict G) ''CBR'', last_with_code (node_dict G) ''CPT'')"
  by (rule q6_endpoints_last)

text \<open>
  With two nodes of code CBR, in this order, the first match is node 1 and Q6 starts
  from node 2.
\<close>

theorem q6_first_match_counterexample:
  "nodes_with_code (node_dict (build_graph_lines
       [''CBR|1|Canberra'', ''CBR|2|Canberra West'', ''CPT|3|Cape Town''] [])) ''CBR'' = [''1'', ''2'']
   \<and> first_with_code (node_dict (build_graph_lines
       [''CBR|1|Canberra'', ''CBR|2|Canberra West'', ''CPT|3|Cape Town''] [])) ''CBR'' = Some ''1''
   \<and> fst (q6_endpoints (build_graph_lines
       [''CBR|1|Canberra'', ''CBR|2|Canberra West'', ''CPT|3|Cape Town''] [])) = Some ''2''"
  by code_simp

theorem q6_selects_last_match_witness:
  "q6_endpoints (build_graph_lines
       [''CBR|1|Canberra'', ''CBR|2|Canberra West'', ''CPT|3|Cape Town''] []) = (Some ''2'', Some ''3'')"
proof -
  have "last_with_code (node_dict (build_graph_lines
       [''CBR|1|Canberra'', ''CBR|2|Canberra West'', ''CPT|3|Cape Town''] [])) ''CBR'' = Some ''2''"
    by code_simp
  moreover have "last_with_code (node_dict (build_graph_lines
       [''CBR|1|Canberra'', ''CBR|2|Canberra West'', ''CPT|3|Cape Town''] [])) ''CPT'' = Some ''3''"
    by code_simp
  ultimately show ?thesis
    using q6_selects_last_match[of "build_graph_lines
       [''CBR|1|Canberra'', ''CBR|2|Canberra West'', ''CPT|3|Cape Town''] []"]
    by simp
qed

text \<open>
  Claim C4. When no node has the code CBR, or none has the code CPT, Q6 prints the
  message about the missing codes and returns without an exception. When both are found
  and no chain of edges joins the two nodes, the library's exception is caught: Q6
  prints the message about the missing path and returns without an exception. The
  loaded graph is the same object after the call.
\<close>

theorem q6_fails_gracefully:
  "(nodes_with_code (node_dict G) ''CBR'' = [] \<or> nodes_with_code (node_dict G) ''CPT'' = []
      \<longrightarrow> solve_problem2_q6 G = ([codes_not_found], None))
   \<and> (\<forall>s t. q6_endpoints G = (Some s, Some t) \<and> \<not> reachable G s t
      \<longrightarrow> solve_problem2_q6 G = ([no_path_found], None))
   \<and> (\<forall>w :: world. loaded w = G \<longrightarrow> loaded (snd (call solve_problem2_q6 no_copy w)) = G)"
proof (intro conjI allI impI)
  assume "nodes_with_code (node_dict G) ''CBR'' = [] \<or> nodes_with_code (node_dict G) ''CPT'' = []"
  then have "fst (q6_endpoints G) = None \<or> snd (q6_endpoints G) = None"
    by (auto simp: q6_endpoints_last last_with_code_None)
  then show "solve_problem2_q6 G = ([codes_not_found], None)"
    by (auto simp: solve_problem2_q6_def split: prod.splits option.splits)
next
  fix s t assume a: "q6_endpoints G = (Some s, Some t) \<and> \<not> reachable G s t"
  then have "has_node G s" "has_node G t"
    by (auto simp: q6_endpoints_last intro: last_with_code_node)
  then have "shortest_path G s t = Inl NetworkXNoPath"
    using a by (simp add: shortest_path_no_path)
  then show "solve_problem2_q6 G = ([no_path_found], None)"
    using a by (simp add: solve_problem2_q6_def)
next
  fix w :: world assume "loaded w = G"
  then show "loaded (snd (call solve_problem2_q6 no_copy w)) = G"
    by (simp add: call_def)
qed

theorem q6_fails_gracefully_witness:
  "nodes_with_code (node_dict (build_graph_lines [''A|1|CityA''] [])) ''CBR'' = []
   \<and> solve_problem2_q6 (build_graph_lines [''A|1|CityA''] []) = ([codes_not_found], None)
   \<and> q6_endpoints (build_graph_lines
        [''CBR|1|Canberra'', ''CPT|2|Cape Town'', ''X|3|Xi''] [''1 3'']) = (Some ''1'', Some ''2'')
   \<and> \<not> reachable (build_graph_lines
        [''CBR|1|Canberra'', ''CPT|2|Cape Town'', ''X|3|Xi''] [''1 3'']) ''1'' ''2''
   \<and> solve_problem2_q6 (build_graph_lines
        [''CBR|1|Canberra'', ''CPT|2|Cape Town'', ''X|3|Xi''] [''1 3'']) = ([no_path_found], None)
   \<and> loaded (snd (call solve_problem2_q6 no_copy
        \<lparr>loaded = build_graph_lines [''A|1|CityA''] [], copies = [], stdout = []\<rparr>))
       = build_graph_lines [''A|1|CityA''] []"
proof -
  let ?G1 = "build_graph_lines [''A|1|CityA''] []"
  let ?G2 = "build_graph_lines [''CBR|1|Canberra'', ''CPT|2|Cape Town'', ''X|3|Xi''] [''1 3'']"
  have h1: "nodes_with_code (node_dict ?G1) ''CBR'' = []" by code_simp
  have h2: "q6_endpoints ?G2 = (Some ''1'', Some ''2'')" by code_simp
  have "''2'' \<notin> set (component_of ?G2 ''1'')" by code_simp
  then have h3: "\<not> reachable ?G2 ''1'' ''2''" by (simp only: reachable_component not_False_eq_True)
  have r1: "solve_problem2_q6 ?G1 = ([codes_not_found], None)"
    using q6_fails_gracefully[of ?G1] h1 by blast
  have r2: "solve_problem2_q6 ?G2 = ([no_path_found], None)"
    using q6_fails_gracefully[of ?G2] h2 h3 by blast
  have r3: "loaded (snd (call solve_problem2_q6 no_copy
        \<lparr>loaded = ?G1, copies = [], stdout = []\<rparr>)) = ?G1"
    using q6_fails_gracefully[of ?G1] by simp
  show ?thesis using h1 h2 h3 r1 r2 r3 by blast
qed

section \<open>Q5: eccentricities, levels and the length of the path found\<close>














lemma components_from_members:
  "c \<in> set (components_from G seen vs) \<Longrightarrow> \<exists>v \<in> set vs. c = component_of G v"
  by (induction G seen vs rule: components_from.induct) (auto split: if_splits)

lemma connected_components_nonempty:
  "node_dict G \<noteq> [] \<Longrightarrow> connected_components G \<noteq> []"
  by (cases "node_dict G") (simp_all add: connected_components_def node_list_def)

lemma fold_longer_member:
  "fold (\<lambda>x best. if length best < length x then x else best) rest c \<in> set (c # rest)"
proof (induction rest arbitrary: c)
  case Nil
  then show ?case by simp
next
  case (Cons x rest)
  show ?case
    using Cons[of x] Cons[of c] by (cases "length c < length x") auto
qed

lemma max_by_len_member: "max_by_len cs = Inr c \<Longrightarrow> c \<in> set cs"
  using fold_longer_member by (cases cs) (auto simp: max_by_len_def)

lemma max_by_len_nonempty: "cs \<noteq> [] \<Longrightarrow> \<exists>c. max_by_len cs = Inr c"
  by (cases cs) (simp_all add: max_by_len_def)

lemma largest_component_is_component:
  assumes "node_dict G \<noteq> []"
  shows "\<exists>v. has_node G v \<and> largest_component G = Inr (subgraph G (component_of G v))"
proof -
  obtain c where c: "max_by_len (connected_components G) = Inr c"
    using max_by_len_nonempty[OF connected_components_nonempty[OF assms]] by blast
  then have "c \<in> set (components_from G [] (node_list G))"
    using max_by_len_member by (simp add: connected_components_def)
  then obtain v where "v \<in> set (node_list G)" "c = component_of G v"
    using components_from_members by blast
  then show ?thesis using c by (auto simp: largest_component_def has_node_def node_list_def)
qed


lemma node_list_subgraph: "node_list (subgraph G S) = filter (\<lambda>n. n \<in> set S) (node_list G)"
  by (simp add: node_list_def subgraph_def filter_map comp_def)

lemma has_node_subgraph: "has_node (subgraph G S) n \<longleftrightarrow> has_node G n \<and> n \<in> set S"
  using node_list_subgraph[of G S] by (auto simp: has_node_def node_list_def)














section \<open>Q3: the ten nodes of highest degree\<close>









section \<open>The degree distribution\<close>

lemma count_step_sum: "sum_list (map snd (count_step d m)) = Suc (sum_list (map snd m))"
  unfolding count_step_def by (induction m) auto

lemma count_step_distinct: "distinct (map fst m) \<Longrightarrow> distinct (map fst (count_step d m))"
  unfolding count_step_def by (rule distinct_update)

lemma count_step_positive:
  "\<forall>p \<in> set m. 0 < snd p \<Longrightarrow> \<forall>p \<in> set (count_step d m). 0 < snd p"
  unfolding count_step_def by (induction m) (auto split: if_splits)

lemma fold_count_step:
  "distinct (map fst m) \<Longrightarrow> \<forall>p \<in> set m. 0 < snd p \<Longrightarrow>
     distinct (map fst (fold count_step ds m))
     \<and> (\<forall>p \<in> set (fold count_step ds m). 0 < snd p)
     \<and> sum_list (map snd (fold count_step ds m)) = sum_list (map snd m) + length ds"
proof (induction ds arbitrary: m)
  case Nil
  then show ?case by simp
next
  case (Cons d ds)
  have "distinct (map fst (count_step d m))" using Cons.prems(1) by (rule count_step_distinct)
  moreover have "\<forall>p \<in> set (count_step d m). 0 < snd p"
    using Cons.prems(2) by (rule count_step_positive)
  ultimately show ?case
    using Cons.IH[of "count_step d m"] by (simp add: count_step_sum)
qed

lemma count_degrees_facts:
  "distinct (map fst (count_degrees ds))
   \<and> (\<forall>p \<in> set (count_degrees ds). 0 < snd p)
   \<and> sum_list (map snd (count_degrees ds)) = length ds"
  using fold_count_step[of "[]" ds] by (simp add: count_degrees_def)

lemma fractions_eq:
  "n \<noteq> 0 \<Longrightarrow> set ds \<subseteq> fst ` set m \<Longrightarrow> fractions m n ds = Inr (map (fraction_of m n) ds)"
proof (induction ds)
  case Nil
  then show ?case by simp
next
  case (Cons d ds)
  then obtain c where "map_of m d = Some c"
    by (cases "map_of m d") (auto simp: map_of_eq_None_iff)
  then show ?case using Cons by (simp add: py_div_def fraction_of_def)
qed

lemma positive_count:
  assumes "\<forall>p \<in> set m. 0 < snd p" "d \<in> fst ` set m"
  shows "\<exists>c. map_of m d = Some c \<and> 0 < c"
proof -
  obtain c where c: "map_of m d = Some c"
    using assms(2) by (cases "map_of m d") (auto simp: map_of_eq_None_iff)
  then have "(d, c) \<in> set m" by (rule map_of_SomeD)
  then show ?thesis using assms(1) c by auto
qed

lemma fraction_positive:
  assumes "n \<noteq> 0" "\<forall>p \<in> set m. 0 < snd p" "d \<in> fst ` set m"
  shows "0 < fraction_of m n d"
proof -
  obtain c where "map_of m d = Some c" "0 < c" using positive_count[OF assms(2,3)] by blast
  then show ?thesis using assms(1) by (simp add: fraction_of_def)
qed

lemma q4_points_eq:
  "n \<noteq> 0 \<Longrightarrow> \<forall>p \<in> set m. 0 < snd p \<Longrightarrow> set ds \<subseteq> fst ` set m \<Longrightarrow>
     q4_points m n ds = Inr (map (\<lambda>d. (d, fraction_of m n d)) ds)"
proof (induction ds)
  case Nil
  then show ?case by simp
next
  case (Cons d ds)
  have "0 < fraction_of m n d"
    using fraction_positive[OF Cons.prems(1,2)] Cons.prems(3) by simp
  then show ?case using Cons by (simp add: py_div_def fraction_of_def)
qed

lemma sum_counts:
  assumes "distinct (map fst m)"
  shows "(\<Sum>d\<leftarrow>map fst m. (case map_of m d of None \<Rightarrow> 0 | Some c \<Rightarrow> c)) = sum_list (map snd m)"
proof -
  have "map (\<lambda>d. case map_of m d of None \<Rightarrow> 0 | Some c \<Rightarrow> c) (map fst m) = map snd m"
    using assms by (auto simp: map_of_eq_Some_iff[OF assms])
  then show ?thesis by (rule arg_cong[of _ _ sum_list])
qed

lemma sum_fractions:
  assumes "distinct (map fst m)" "n \<noteq> 0" "sum_list (map snd m) = n"
  shows "sum_list (map (fraction_of m n) (sort (map fst m))) = 1"
proof -
  let ?cnt = "\<lambda>d. case map_of m d of None \<Rightarrow> 0 | Some c \<Rightarrow> c"
  have "sum_list (map (fraction_of m n) (sort (map fst m)))
          = sum (fraction_of m n) (set (sort (map fst m)))"
    using assms(1) by (intro sum_list_distinct_conv_sum_set) simp
  also have "\<dots> = sum (fraction_of m n) (set (map fst m))" by simp
  also have "\<dots> = sum (\<lambda>d. of_nat (?cnt d)) (set (map fst m)) / of_nat n"
    by (simp add: fraction_of_def[abs_def] sum_divide_distrib)
  also have "sum (\<lambda>d. of_nat (?cnt d)) (set (map fst m)) = (of_nat (sum ?cnt (set (map fst m))) :: rat)"
    by simp
  also have "sum ?cnt (set (map fst m)) = sum_list (map ?cnt (map fst m))"
    using assms(1) by (rule sum_list_distinct_conv_sum_set[symmetric])
  also have "\<dots> = n" using sum_counts[OF assms(1)] assms(3) by simp
  finally show ?thesis using assms(2) by simp
qed

lemma histogram_series:
  assumes "ds \<noteq> []"
  shows "sorted_wrt (<) (sort (map fst (count_degrees ds)))
       \<and> (\<forall>f \<in> set (map (fraction_of (count_degrees ds) (length ds)) (sort (map fst (count_degrees ds)))). 0 < f)
       \<and> sum_list (map (fraction_of (count_degrees ds) (length ds)) (sort (map fst (count_degrees ds)))) = 1
       \<and> fractions (count_degrees ds) (length ds) (sort (map fst (count_degrees ds)))
           = Inr (map (fraction_of (count_degrees ds) (length ds)) (sort (map fst (count_degrees ds))))
       \<and> q4_points (count_degrees ds) (length ds) (sort (map fst (count_degrees ds)))
           = Inr (map (\<lambda>d. (d, fraction_of (count_degrees ds) (length ds) d))
                      (sort (map fst (count_degrees ds))))"
proof -
  let ?m = "count_degrees ds"
  have f: "distinct (map fst ?m)" "\<forall>p \<in> set ?m. 0 < snd p" "sum_list (map snd ?m) = length ds"
    using count_degrees_facts[of ds] by simp_all
  have n: "length ds \<noteq> 0" using assms by simp
  have sub: "set (sort (map fst ?m)) \<subseteq> fst ` set ?m" by simp
  have 1: "sorted_wrt (<) (sort (map fst ?m))"
    using f(1) by (simp add: strict_sorted_iff)
  have 2: "\<forall>f \<in> set (map (fraction_of ?m (length ds)) (sort (map fst ?m))). 0 < f"
    using fraction_positive[OF n f(2)] by auto
  have 3: "sum_list (map (fraction_of ?m (length ds)) (sort (map fst ?m))) = 1"
    using sum_fractions[OF f(1) n f(3)] .
  have 4: "fractions ?m (length ds) (sort (map fst ?m))
           = Inr (map (fraction_of ?m (length ds)) (sort (map fst ?m)))"
    using fractions_eq[OF n sub] .
  have 5: "q4_points ?m (length ds) (sort (map fst ?m))
           = Inr (map (\<lambda>d. (d, fraction_of ?m (length ds) d)) (sort (map fst ?m)))"
    using q4_points_eq[OF n f(2) sub] .
  show ?thesis by (intro conjI 1 2 3 4 5)
qed

lemma count_step_keys: "fst ` set (count_step d m) = insert d (fst ` set m)"
  unfolding count_step_def by (simp add: dom_update)

lemma fold_count_step_keys: "fst ` set (fold count_step ds m) = set ds \<union> fst ` set m"
  by (induction ds arbitrary: m) (auto simp: count_step_keys)

lemma count_degrees_keys: "fst ` set (count_degrees ds) = set ds"
  by (simp add: count_degrees_def fold_count_step_keys)

lemma degree_series:
  assumes "node_dict G \<noteq> []"
  shows "\<exists>x y. fractions (count_degrees (map snd (degree_view G))) (number_of_nodes G)
                 (sort (map fst (count_degrees (map snd (degree_view G))))) = Inr y
           \<and> q4_points (count_degrees (map snd (degree_view G))) (number_of_nodes G)
                 (sort (map fst (count_degrees (map snd (degree_view G))))) = Inr (zip x y)
           \<and> x = sort (map fst (count_degrees (map snd (degree_view G))))
           \<and> length x = length y \<and> sorted_wrt (<) x
           \<and> set x = snd ` set (degree_view G)
           \<and> (\<forall>f \<in> set y. 0 < f) \<and> sum_list y = 1"
proof -
  let ?ds = "map snd (degree_view G)"
  let ?m = "count_degrees ?ds"
  let ?x = "sort (map fst ?m)"
  let ?y = "map (fraction_of ?m (number_of_nodes G)) ?x"
  have len: "length ?ds = number_of_nodes G"
    by (simp add: degree_view_def node_list_def number_of_nodes_def)
  have ne: "?ds \<noteq> []" using assms by (simp add: degree_view_def node_list_def)
  note h = histogram_series[OF ne, unfolded len]
  have z: "map (\<lambda>d. (d, fraction_of ?m (number_of_nodes G) d)) ?x = zip ?x ?y"
    by (simp add: zip_map2 zip_same_conv_map)
  have k: "set ?x = snd ` set (degree_view G)"
    using count_degrees_keys[of ?ds] by simp
  have 1: "fractions ?m (number_of_nodes G) ?x = Inr ?y"
    using h by (elim conjE)
  have "q4_points ?m (number_of_nodes G) ?x
          = Inr (map (\<lambda>d. (d, fraction_of ?m (number_of_nodes G) d)) ?x)"
    using h by (elim conjE)
  then have 2: "q4_points ?m (number_of_nodes G) ?x = Inr (zip ?x ?y)"
    by (simp only: z)
  have 3: "length ?x = length ?y" by simp
  have 4: "sorted_wrt (<) ?x" using h by (rule conjunct1)
  have 5: "\<forall>f \<in> set ?y. 0 < f" using h by (elim conjE)
  have 6: "sum_list ?y = 1" using h by (elim conjE)
  show ?thesis
    by (rule exI[of _ ?x], rule exI[of _ ?y]) (intro conjI 1 2 refl 3 4 k 5 6)
qed

lemma largest_component_nonempty:
  assumes "node_dict G \<noteq> []"
  shows "\<exists>G_largest. largest_component G = Inr G_largest \<and> node_dict G_largest \<noteq> []"
proof -
  obtain v where v: "has_node G v" "largest_component G = Inr (subgraph G (component_of G v))"
    using largest_component_is_component[OF assms] by blast
  have "has_node (subgraph G (component_of G v)) v"
    using v(1) hd_component[of v G] by (simp add: has_node_subgraph)
  then have "node_dict (subgraph G (component_of G v)) \<noteq> []"
    by (auto simp: has_node_def)
  then show ?thesis using v(2) by blast
qed

text \<open>
  Claim C5. On a graph with at least one node, the degree distribution of the tree
  program and the one of Q4 (over the largest component) both return a list of degrees
  and a list of fractions of the same length: the degrees are exactly the degrees that
  occur, in strictly ascending order; every fraction is positive; and the fractions,
  as exact quotients, add up to 1.
\<close>

theorem degree_distribution_sums_to_one:
  assumes "node_dict G \<noteq> []"
  shows "(\<exists>x y. plot_degree_distribution G = Inr (x, y)
            \<and> length x = length y \<and> sorted_wrt (<) x
            \<and> set x = snd ` set (degree_view G)
            \<and> (\<forall>f \<in> set y. 0 < f) \<and> sum_list y = 1)
       \<and> (\<exists>G_largest x_vals y_vals.
              largest_component G = Inr G_largest \<and> q4_series G = Inr (x_vals, y_vals)
            \<and> length x_vals = length y_vals \<and> sorted_wrt (<) x_vals
            \<and> set x_vals = snd ` set (degree_view G_largest)
            \<and> (\<forall>f \<in> set y_vals. 0 < f) \<and> sum_list y_vals = 1)"
proof (rule conjI)
  obtain x y where s:
    "fractions (count_degrees (map snd (degree_view G))) (number_of_nodes G)
       (sort (map fst (count_degrees (map snd (degree_view G))))) = Inr y"
    "x = sort (map fst (count_degrees (map snd (degree_view G))))"
    "length x = length y" "sorted_wrt (<) x" "set x = snd ` set (degree_view G)"
    "\<forall>f \<in> set y. 0 < f" "sum_list y = 1"
    using degree_series[OF assms] by (elim exE conjE)
  have "plot_degree_distribution G = Inr (x, y)"
    using s(1) by (simp add: plot_degree_distribution_def Let_def s(2))
  then show "\<exists>x y. plot_degree_distribution G = Inr (x, y)
            \<and> length x = length y \<and> sorted_wrt (<) x
            \<and> set x = snd ` set (degree_view G)
            \<and> (\<forall>f \<in> set y. 0 < f) \<and> sum_list y = 1"
    using s(3-7) by blast
next
  obtain GL where g: "largest_component G = Inr GL" "node_dict GL \<noteq> []"
    using largest_component_nonempty[OF assms] by blast
  obtain x y where s:
    "q4_points (count_degrees (map snd (degree_view GL))) (number_of_nodes GL)
       (sort (map fst (count_degrees (map snd (degree_view GL))))) = Inr (zip x y)"
    "length x = length y" "sorted_wrt (<) x" "set x = snd ` set (degree_view GL)"
    "\<forall>f \<in> set y. 0 < f" "sum_list y = 1"
    using degree_series[OF g(2)] by (elim exE conjE)
  have "q4_series G = Inr (x, y)"
    using g(1) s(1,2) by (simp add: q4_series_def Let_def)
  then show "\<exists>G_largest x_vals y_vals.
              largest_component G = Inr G_largest \<and> q4_series G = Inr (x_vals, y_vals)
            \<and> length x_vals = length y_vals \<and> sorted_wrt (<) x_vals
            \<and> set x_vals = snd ` set (degree_view G_largest)
            \<and> (\<forall>f \<in> set y_vals. 0 < f) \<and> sum_list y_vals = 1"
    using g(1) s(2-6) by blast
qed

theorem degree_distribution_sums_to_one_witness:
  "node_dict (build_graph_lines [''A|1|CityA'', ''B|2|CityB'', ''C|3|CityC''] [''1 2'', ''2 3'']) \<noteq> []
   \<and> plot_degree_distribution (build_graph_lines
        [''A|1|CityA'', ''B|2|CityB'', ''C|3|CityC''] [''1 2'', ''2 3'']) = Inr ([1, 2], [2 / 3, 1 / 3])
   \<and> q4_series (build_graph_lines
        [''A|1|CityA'', ''B|2|CityB'', ''C|3|CityC''] [''1 2'', ''2 3'']) = Inr ([1, 2], [2 / 3, 1 / 3])
   \<and> (\<exists>x y. plot_degree_distribution (build_graph_lines
        [''A|1|CityA'', ''B|2|CityB'', ''C|3|CityC''] [''1 2'', ''2 3'']) = Inr (x, y) \<and> sum_list y = 1)"
proof -
  let ?G = "build_graph_lines [''A|1|CityA'', ''B|2|CityB'', ''C|3|CityC''] [''1 2'', ''2 3'']"
  have h: "node_dict ?G \<noteq> []" by code_simp
  have v1: "plot_degree_distribution ?G = Inr ([1, 2], [2 / 3, 1 / 3])" by code_simp
  have v2: "q4_series ?G = Inr ([1, 2], [2 / 3, 1 / 3])" by code_simp
  have "\<exists>x y. plot_degree_distribution ?G = Inr (x, y) \<and> sum_list y = 1"
    using degree_distribution_sums_to_one[OF h] by blast
  then show ?thesis using h v1 v2 by blast
qed

section \<open>The queries do not change the loaded graph\<close>







section \<open>The tree generator: what the loops keep true\<close>

lemma at_level_attr: "at_level G v l \<Longrightarrow> node_attr G v ''level'' = Inr l"
  by (simp add: at_level_def node_attr_def)

lemma at_level_unique: "at_level G v l \<Longrightarrow> at_level G v l' \<Longrightarrow> l = l'"
  by (simp add: at_level_def)

lemma tree_inv_node_set: "tree_inv G n \<Longrightarrow> fst ` set (node_dict G) = {0..n - 1}"
proof -
  assume "tree_inv G n"
  then have "map fst (node_dict G) = [0..n - 1]" by (simp add: tree_inv_def)
  then have "set (map fst (node_dict G)) = set [0..n - 1]" by (rule arg_cong)
  then show ?thesis by simp
qed

lemma tree_inv_child_set: "tree_inv G n \<Longrightarrow> snd ` set (edge_list G) = {1..n - 1}"
proof -
  assume "tree_inv G n"
  then have "map snd (edge_list G) = [1..n - 1]" by (simp add: tree_inv_def)
  then have "set (map snd (edge_list G)) = set [1..n - 1]" by (rule arg_cong)
  then show ?thesis by simp
qed

lemma tree_inv_has_node: "tree_inv G n \<Longrightarrow> has_node G v \<longleftrightarrow> 0 \<le> v \<and> v < n"
  using tree_inv_node_set[of G n] by (auto simp: has_node_def)

lemma tree_inv_level:
  assumes "tree_inv G n" "has_node G v"
  shows "\<exists>l. at_level G v l \<and> 0 \<le> l \<and> (l = 0 \<longleftrightarrow> v = 0)"
proof -
  have d: "distinct (map fst (node_dict G))" using assms(1) by (simp add: tree_inv_def)
  from assms(2) obtain a where a: "(v, a) \<in> set (node_dict G)"
    by (auto simp: has_node_def)
  then obtain l where "snd (v, a) = [(''level'', l)] \<and> 0 \<le> l \<and> (l = 0 \<longleftrightarrow> fst (v, a) = 0)"
    using assms(1) unfolding tree_inv_def by blast
  moreover have "map_of (node_dict G) v = Some a" using d a by simp
  ultimately show ?thesis by (auto simp: at_level_def)
qed

lemma at_level_has_node: "at_level G v l \<Longrightarrow> has_node G v"
  by (auto simp: at_level_def has_node_def dest: map_of_SomeD intro: rev_image_eqI)

lemma add_child_tree:
  assumes "tree_inv G n" "has_node G node"
  shows "add_edge (add_node G n [(''level'', d)]) node n
           = \<lparr>node_dict = node_dict G @ [(n, [(''level'', d)])],
              edge_list = edge_list G @ [(node, n)]\<rparr>"
proof -
  have nn: "\<not> has_node G n" using assms(1) by (simp add: tree_inv_has_node)
  then have "map_of (node_dict G) n = None"
    by (simp add: has_node_def map_of_eq_None_iff)
  then have an: "add_node G n [(''level'', d)]
       = G\<lparr>node_dict := node_dict G @ [(n, [(''level'', d)])]\<rparr>"
    by (simp add: add_node_def dict_update_def)
  let ?G1 = "G\<lparr>node_dict := node_dict G @ [(n, [(''level'', d)])]\<rparr>"
  have h1: "has_node ?G1 node" "has_node ?G1 n"
    using assms(2) by (simp_all add: has_node_def)
  have e: "ensure_node (ensure_node ?G1 node) n = ?G1"
    using h1 by (simp add: ensure_node_def)
  have node: "0 \<le> node \<and> node < n" using assms by (simp add: tree_inv_has_node)
  have "\<not> has_edge ?G1 node n"
  proof
    assume "has_edge ?G1 node n"
    then have "(node, n) \<in> set (edge_list G) \<or> (n, node) \<in> set (edge_list G)"
      by (simp add: has_edge_def)
    then show False
    proof
      assume "(node, n) \<in> set (edge_list G)"
      then have "n \<in> snd ` set (edge_list G)" by force
      then show False using tree_inv_child_set[OF assms(1)] by simp
    next
      assume "(n, node) \<in> set (edge_list G)"
      then have "fst (n, node) < snd (n, node)" using assms(1) unfolding tree_inv_def by blast
      then show False using node by simp
    qed
  qed
  then show ?thesis
    by (simp add: an add_edge_def e)
qed

lemma at_level_add_child:
  assumes "tree_inv G n"
  shows "at_level \<lparr>node_dict = node_dict G @ [(n, [(''level'', d)])],
                   edge_list = edge_list G @ [(node, n)]\<rparr> v l
         \<longleftrightarrow> at_level G v l \<or> (v = n \<and> l = d)"
proof -
  have nn: "map_of (node_dict G) n = None"
    using tree_inv_node_set[OF assms] by (simp add: map_of_eq_None_iff)
  show ?thesis
  proof (cases "v = n")
    case True
    then show ?thesis using nn by (auto simp: at_level_def map_add_def)
  next
    case False
    then show ?thesis by (simp add: at_level_def map_add_def split: option.splits)
  qed
qed

lemma tree_inv_add_child:
  assumes "tree_inv G n" "at_level G node (d - 1)" "1 \<le> d"
  shows "tree_inv \<lparr>node_dict = node_dict G @ [(n, [(''level'', d)])],
                   edge_list = edge_list G @ [(node, n)]\<rparr> (n + 1)"
proof -
  let ?G' = "\<lparr>node_dict = node_dict G @ [(n, [(''level'', d)])],
              edge_list = edge_list G @ [(node, n)]\<rparr>"
  have n1: "1 \<le> n" using assms(1) by (simp add: tree_inv_def)
  have hn: "has_node G node" using assms(2) by (rule at_level_has_node)
  then have node: "0 \<le> node \<and> node < n" using assms(1) by (simp add: tree_inv_has_node)
  have t2: "map fst (node_dict ?G') = [0..n + 1 - 1]"
    using assms(1) n1 by (simp add: tree_inv_def upto_rec2[of 0 n])
  have t4: "map snd (edge_list ?G') = [1..n + 1 - 1]"
    using assms(1) n1 by (simp add: tree_inv_def upto_rec2[of 1 n])
  have t3: "\<forall>p \<in> set (node_dict ?G'). \<exists>l. snd p = [(''level'', l)] \<and> 0 \<le> l \<and> (l = 0 \<longleftrightarrow> fst p = 0)"
    using assms(1,3) n1 unfolding tree_inv_def by auto
  have t5: "\<forall>e \<in> set (edge_list ?G'). 0 \<le> fst e \<and> fst e < snd e
            \<and> (\<exists>l. at_level ?G' (fst e) l \<and> at_level ?G' (snd e) (l + 1))"
  proof
    fix e assume "e \<in> set (edge_list ?G')"
    then have "e \<in> set (edge_list G) \<or> e = (node, n)" by auto
    then show "0 \<le> fst e \<and> fst e < snd e
            \<and> (\<exists>l. at_level ?G' (fst e) l \<and> at_level ?G' (snd e) (l + 1))"
    proof
      assume "e \<in> set (edge_list G)"
      then have "0 \<le> fst e \<and> fst e < snd e
            \<and> (\<exists>l. at_level G (fst e) l \<and> at_level G (snd e) (l + 1))"
        using assms(1) unfolding tree_inv_def by blast
      then show ?thesis by (auto simp: at_level_add_child[OF assms(1)])
    next
      assume "e = (node, n)"
      then show ?thesis
        using node assms(2) by (auto simp: at_level_add_child[OF assms(1)] intro!: exI[of _ "d - 1"])
    qed
  qed
  show ?thesis
    unfolding tree_inv_def using n1 t2 t3 t4 t5 by simp
qed

lemma out_degree_fresh: "tree_inv G n \<Longrightarrow> out_degree G n = 0"
proof -
  assume t: "tree_inv G n"
  have "\<forall>e \<in> set (edge_list G). fst e \<noteq> n"
  proof
    fix e assume e: "e \<in> set (edge_list G)"
    then have "fst e < snd e" using t unfolding tree_inv_def by blast
    moreover have "snd e \<in> snd ` set (edge_list G)" using e by simp
    then have "snd e \<le> n - 1" using tree_inv_child_set[OF t] by simp
    ultimately show "fst e \<noteq> n" by simp
  qed
  then show ?thesis by (simp add: out_degree_def filter_empty_conv)
qed

lemma out_degree_add_child:
  "out_degree \<lparr>node_dict = nd, edge_list = edge_list G @ [(node, n)]\<rparr> v
     = out_degree G v + (if v = node then 1 else 0)"
  by (simp add: out_degree_def)

lemma add_child_state:
  assumes "tree_inv (tree s) (next_node s)" "has_node (tree s) node"
  shows "add_child d node s =
           \<lparr>tree = \<lparr>node_dict = node_dict (tree s) @ [(next_node s, [(''level'', d)])],
                     edge_list = edge_list (tree s) @ [(node, next_node s)]\<rparr>,
            new_level = new_level s @ [next_node s],
            next_node = next_node s + 1\<rparr>"
  by (simp add: add_child_def add_child_tree[OF assms])

lemma not_at_level_fresh: "tree_inv G n \<Longrightarrow> \<not> at_level G n l"
  using at_level_has_node[of G n l] by (auto simp: tree_inv_has_node)

lemma expanding_node_step:
  assumes "expanding_node k d node j todo s" "1 \<le> d"
  shows "expanding_node k d node (Suc j) todo (add_child d node s)"
proof -
  let ?G = "tree s" and ?n = "next_node s"
  let ?G' = "\<lparr>node_dict = node_dict ?G @ [(?n, [(''level'', d)])],
              edge_list = edge_list ?G @ [(node, ?n)]\<rparr>"
  from assms(1) have t: "tree_inv ?G ?n"
    and lv: "\<forall>v l. at_level ?G v l \<longrightarrow> l \<le> d"
    and di: "distinct (node # todo)"
    and td: "\<forall>v \<in> set todo. at_level ?G v (d - 1) \<and> out_degree ?G v = 0"
    and nd: "at_level ?G node (d - 1)" and od: "out_degree ?G node = j"
    and ot: "\<forall>v l. at_level ?G v l \<and> l < d \<and> v \<notin> set (node # todo)
            \<longrightarrow> out_degree ?G v = children_count k l"
    and ld: "\<forall>v. at_level ?G v d \<longrightarrow> out_degree ?G v = 0"
    and dn: "distinct (new_level s)" and sn: "set (new_level s) = {v. at_level ?G v d}"
    unfolding expanding_node_def by blast+
  have hn: "has_node ?G node" using nd by (rule at_level_has_node)
  have st: "add_child d node s =
      \<lparr>tree = ?G', new_level = new_level s @ [?n], next_node = ?n + 1\<rparr>"
    by (rule add_child_state[OF t hn])
  have al: "\<And>v l. at_level ?G' v l \<longleftrightarrow> at_level ?G v l \<or> (v = ?n \<and> l = d)"
    by (rule at_level_add_child[OF t])
  have od': "\<And>v. out_degree ?G' v = out_degree ?G v + (if v = node then 1 else 0)"
    by (rule out_degree_add_child)
  have fresh: "\<And>l. \<not> at_level ?G ?n l" by (rule not_at_level_fresh[OF t])
  have f0: "out_degree ?G ?n = 0" by (rule out_degree_fresh[OF t])
  have nn: "node \<noteq> ?n" using nd fresh by auto
  have 1: "tree_inv ?G' (?n + 1)" by (rule tree_inv_add_child[OF t nd assms(2)])
  have 2: "\<forall>v l. at_level ?G' v l \<longrightarrow> l \<le> d" using lv by (auto simp: al)
  have 4: "\<forall>v \<in> set todo. at_level ?G' v (d - 1) \<and> out_degree ?G' v = 0"
    using td di by (auto simp: al od')
  have 5: "at_level ?G' node (d - 1) \<and> out_degree ?G' node = Suc j"
    using nd od by (simp add: al od')
  have 6: "\<forall>v l. at_level ?G' v l \<and> l < d \<and> v \<notin> set (node # todo)
            \<longrightarrow> out_degree ?G' v = children_count k l"
    using ot by (auto simp: al od')
  have 7: "\<forall>v. at_level ?G' v d \<longrightarrow> out_degree ?G' v = 0"
  proof (intro allI impI)
    fix v assume "at_level ?G' v d"
    then have "at_level ?G v d \<or> v = ?n" by (simp add: al)
    then show "out_degree ?G' v = 0"
    proof
      assume a: "at_level ?G v d"
      then have "v \<noteq> node" using nd at_level_unique[of ?G v d "d - 1"] by auto
      then show ?thesis using ld a by (simp add: od')
    next
      assume "v = ?n"
      then show ?thesis using f0 nn by (simp add: od')
    qed
  qed
  have 8: "distinct (new_level s @ [?n])" using dn sn fresh by simp
  have 9: "set (new_level s @ [?n]) = {v. at_level ?G' v d}"
    using sn by (auto simp: al)
  show ?thesis
    unfolding expanding_node_def st using 1 2 di 4 5 6 7 8 9 by simp
qed

lemma expanding_node_funpow:
  assumes "expanding_node k d node j todo s" "1 \<le> d"
  shows "expanding_node k d node (j + m) todo ((add_child d node ^^ m) s)"
proof (induction m)
  case 0
  then show ?case using assms(1) by simp
next
  case (Suc m)
  then show ?case using expanding_node_step[OF Suc assms(2)] by simp
qed

lemma expanding_start:
  "expanding k d (node # todo) s \<Longrightarrow> expanding_node k d node 0 todo s"
  unfolding expanding_def expanding_node_def by simp

lemma expanding_finish:
  assumes "expanding_node k d node (children_count k (d - 1)) todo s"
  shows "expanding k d todo s"
proof -
  let ?G = "tree s"
  from assms have t: "tree_inv ?G (next_node s)"
    and lv: "\<forall>v l. at_level ?G v l \<longrightarrow> l \<le> d"
    and di: "distinct (node # todo)"
    and td: "\<forall>v \<in> set todo. at_level ?G v (d - 1) \<and> out_degree ?G v = 0"
    and nd: "at_level ?G node (d - 1)"
    and od: "out_degree ?G node = children_count k (d - 1)"
    and ot: "\<forall>v l. at_level ?G v l \<and> l < d \<and> v \<notin> set (node # todo)
            \<longrightarrow> out_degree ?G v = children_count k l"
    and ld: "\<forall>v. at_level ?G v d \<longrightarrow> out_degree ?G v = 0"
    and dn: "distinct (new_level s)" and sn: "set (new_level s) = {v. at_level ?G v d}"
    unfolding expanding_node_def by blast+
  have 5: "\<forall>v l. at_level ?G v l \<and> l < d \<and> v \<notin> set todo
            \<longrightarrow> out_degree ?G v = children_count k l"
  proof (intro allI impI)
    fix v l assume a: "at_level ?G v l \<and> l < d \<and> v \<notin> set todo"
    show "out_degree ?G v = children_count k l"
    proof (cases "v = node")
      case True
      then have "l = d - 1" using a nd at_level_unique by blast
      then show ?thesis using od True by simp
    next
      case False
      then show ?thesis using ot a by simp
    qed
  qed
  show ?thesis
    unfolding expanding_def using t lv di td 5 ld dn sn by simp
qed

lemma expand_node_ok:
  assumes "expanding k d (node # todo) s" "1 \<le> d"
  shows "\<exists>s'. expand_node k d node s = Inr s' \<and> expanding k d todo s'"
proof -
  have e0: "expanding_node k d node 0 todo s" using assms(1) by (rule expanding_start)
  then have al: "at_level (tree s) node (d - 1)" by (simp add: expanding_node_def)
  let ?m = "children_count k (d - 1)"
  have "expanding_node k d node (0 + ?m) todo ((add_child d node ^^ ?m) s)"
    using e0 assms(2) by (rule expanding_node_funpow)
  then have "expanding k d todo ((add_child d node ^^ ?m) s)"
    by (simp add: expanding_finish)
  moreover have "expand_node k d node s = Inr ((add_child d node ^^ ?m) s)"
    by (simp add: expand_node_def at_level_attr[OF al] children_count_def Let_def)
  ultimately show ?thesis by simp
qed

lemma expand_level_ok:
  assumes "expanding k d todo s" "1 \<le> d"
  shows "\<exists>s'. expand_level k d todo s = Inr s' \<and> expanding k d [] s'"
  using assms(1)
proof (induction todo arbitrary: s)
  case Nil
  then show ?case by simp
next
  case (Cons node todo)
  obtain s1 where s1: "expand_node k d node s = Inr s1" "expanding k d todo s1"
    using expand_node_ok[OF Cons.prems assms(2)] by blast
  obtain s' where "expand_level k d todo s1 = Inr s'" "expanding k d [] s'"
    using Cons.IH[OF s1(2)] by blast
  then show ?case using s1(1) by simp
qed

lemma expanding_next_level:
  assumes "expanding k d [] s"
  shows "expanding k (d + 1) (new_level s) \<lparr>tree = tree s, new_level = [], next_node = next_node s\<rparr>"
proof -
  let ?G = "tree s"
  from assms have t: "tree_inv ?G (next_node s)"
    and lv: "\<forall>v l. at_level ?G v l \<longrightarrow> l \<le> d"
    and ot: "\<forall>v l. at_level ?G v l \<and> l < d \<longrightarrow> out_degree ?G v = children_count k l"
    and ld: "\<forall>v. at_level ?G v d \<longrightarrow> out_degree ?G v = 0"
    and dn: "distinct (new_level s)" and sn: "set (new_level s) = {v. at_level ?G v d}"
    unfolding expanding_def by simp_all
  have 2: "\<forall>v l. at_level ?G v l \<longrightarrow> l \<le> d + 1" using lv by force
  have 4: "\<forall>v \<in> set (new_level s). at_level ?G v (d + 1 - 1) \<and> out_degree ?G v = 0"
    using sn ld by simp
  have 5: "\<forall>v l. at_level ?G v l \<and> l < d + 1 \<and> v \<notin> set (new_level s)
            \<longrightarrow> out_degree ?G v = children_count k l"
  proof (intro allI impI)
    fix v l assume a: "at_level ?G v l \<and> l < d + 1 \<and> v \<notin> set (new_level s)"
    then have "l \<noteq> d" using sn by auto
    then have "l < d" using a by simp
    then show "out_degree ?G v = children_count k l" using ot a by blast
  qed
  have 6: "\<forall>v. at_level ?G v (d + 1) \<longrightarrow> out_degree ?G v = 0" using lv by force
  have 8: "{v. at_level ?G v (d + 1)} = {}" using lv by force
  show ?thesis
    unfolding expanding_def using t 2 dn 4 5 6 8 by simp
qed

lemma grow_ok:
  assumes "expanding k d [] \<lparr>tree = G, new_level = cur, next_node = n\<rparr>" "0 \<le> d"
  shows "\<exists>G' cur' n'. grow k [d + 1..P] (G, cur, n) = Inr (G', cur', n')
           \<and> expanding k (max d P) [] \<lparr>tree = G', new_level = cur', next_node = n'\<rparr>"
  using assms
proof (induction "nat (P - d)" arbitrary: d G cur n)
  case 0
  then have "[d + 1..P] = []" "max d P = d" by simp_all
  then show ?case using "0.prems"(1) by simp
next
  case (Suc m)
  then have le: "d + 1 \<le> P" by simp
  let ?s0 = "\<lparr>tree = G, new_level = [], next_node = n\<rparr>"
  have "expanding k (d + 1) cur ?s0"
    using expanding_next_level[OF Suc.prems(1)] by simp
  then obtain s' where s': "expand_level k (d + 1) cur ?s0 = Inr s'" "expanding k (d + 1) [] s'"
    using expand_level_ok[of k "d + 1" cur ?s0] Suc.prems(2) by auto
  have eq: "\<lparr>tree = tree s', new_level = new_level s', next_node = next_node s'\<rparr> = s'" by simp
  have m: "m = nat (P - (d + 1))" using Suc.hyps(2) by simp
  obtain G' cur' n' where r:
    "grow k [d + 1 + 1..P] (tree s', new_level s', next_node s') = Inr (G', cur', n')"
    "expanding k (max (d + 1) P) [] \<lparr>tree = G', new_level = cur', next_node = n'\<rparr>"
    using Suc.hyps(1)[OF m, of "tree s'" "new_level s'" "next_node s'"] s'(2) Suc.prems(2)
    by (auto simp: eq)
  have "grow k [d + 1..P] (G, cur, n) = Inr (G', cur', n')"
    using le s'(1) r(1) by (simp add: upto_rec1[of "d + 1" P])
  moreover have "max (d + 1) P = max d P" using le by simp
  ultimately show ?case using r(2) by simp
qed

lemma initial_tree:
  "add_node empty_graph 0 [(''level'', 0)] = \<lparr>node_dict = [(0, [(''level'', 0)])], edge_list = []\<rparr>"
  by (simp add: add_node_def empty_graph_def dict_update_def)

lemma expanding_initial:
  "expanding k 0 [] \<lparr>tree = add_node empty_graph 0 [(''level'', 0 :: int)], new_level = [0], next_node = 1\<rparr>"
proof -
  let ?G = "\<lparr>node_dict = [(0 :: int, [(''level'', 0 :: int)])], edge_list = []\<rparr>"
  have a: "\<And>v l. at_level ?G v l \<longleftrightarrow> v = 0 \<and> l = 0"
    by (auto simp: at_level_def)
  have "tree_inv ?G 1" by (simp add: tree_inv_def)
  then show ?thesis
    unfolding expanding_def initial_tree by (auto simp: a out_degree_def)
qed

lemma generate_cayley_tree_ok:
  "\<exists>G cur n. generate_cayley_tree k P = Inr G
       \<and> expanding k (max 0 P) [] \<lparr>tree = G, new_level = cur, next_node = n\<rparr>"
proof -
  obtain G cur n where
    "grow k [0 + 1..P] (add_node empty_graph 0 [(''level'', 0)], [0], 1) = Inr (G, cur, n)"
    "expanding k (max 0 P) [] \<lparr>tree = G, new_level = cur, next_node = n\<rparr>"
    using grow_ok[OF expanding_initial, of k P] by auto
  then show ?thesis by (auto simp: generate_cayley_tree_def)
qed

section \<open>The tree generator: the shape of the result\<close>

lemma tree_parent:
  assumes "tree_inv G n" "1 \<le> v" "v < n"
  shows "\<exists>p l. (p, v) \<in> set (edge_list G) \<and> 0 \<le> p \<and> p < v
           \<and> at_level G p l \<and> at_level G v (l + 1)"
proof -
  have "v \<in> snd ` set (edge_list G)"
    using tree_inv_child_set[OF assms(1)] assms(2,3) by simp
  then obtain e where e: "e \<in> set (edge_list G)" "snd e = v" by auto
  then have "0 \<le> fst e \<and> fst e < snd e
            \<and> (\<exists>l. at_level G (fst e) l \<and> at_level G (snd e) (l + 1))"
    using assms(1) unfolding tree_inv_def by blast
  moreover have "(fst e, v) \<in> set (edge_list G)" using e by (metis prod.collapse)
  ultimately show ?thesis using e(2) by blast
qed

lemma root_level: "tree_inv G n \<Longrightarrow> at_level G 0 0"
proof -
  assume t: "tree_inv G n"
  then have "1 \<le> n" by (simp add: tree_inv_def)
  then have "has_node G 0" using t by (simp add: tree_inv_has_node)
  then obtain l where "at_level G 0 l" "l = 0 \<longleftrightarrow> (0::int) = 0"
    using tree_inv_level[OF t] by blast
  then show ?thesis by auto
qed

lemma walk_snoc: "walk G p \<Longrightarrow> has_edge G (last p) v \<Longrightarrow> walk G (p @ [v])"
  by (simp add: walk_def successively_append_iff)

lemma walk_to_root:
  assumes "tree_inv G n"
  shows "0 \<le> v \<Longrightarrow> v < n \<Longrightarrow>
     \<exists>p l. walk G p \<and> hd p = 0 \<and> last p = v \<and> at_level G v l \<and> 0 \<le> l \<and> length p = nat l + 1"
proof (induction "nat v" arbitrary: v rule: less_induct)
  case less
  show ?case
  proof (cases "v = 0")
    case True
    have "at_level G 0 0" using assms by (rule root_level)
    then show ?thesis
      using True by (intro exI[of _ "[0]"] exI[of _ 0]) (simp add: walk_def)
  next
    case False
    then have v1: "1 \<le> v" using less.prems by simp
    obtain u l where u: "(u, v) \<in> set (edge_list G)" "0 \<le> u" "u < v"
        "at_level G u l" "at_level G v (l + 1)"
      using tree_parent[OF assms v1 less.prems(2)] by blast
    have "nat u < nat v" using u(2,3) by simp
    then obtain p l' where p: "walk G p" "hd p = 0" "last p = u" "at_level G u l'"
        "0 \<le> l'" "length p = nat l' + 1"
      using less.hyps[of u] u(2,3) less.prems(2) by force
    have ll: "l' = l" using p(4) u(4) by (rule at_level_unique)
    have e: "has_edge G (last p) v" using u(1) p(3) by (simp add: has_edge_def)
    have w: "walk G (p @ [v])" using p(1) e by (rule walk_snoc)
    have "p \<noteq> []" using p(1) by (simp add: walk_def)
    then have h: "hd (p @ [v]) = 0" using p(2) by simp
    have "length (p @ [v]) = nat (l + 1) + 1" using p(5,6) ll by simp
    then show ?thesis
      using w h u(5) p(5) ll
      by (intro exI[of _ "p @ [v]"] exI[of _ "l + 1"]) simp
  qed
qed

lemma edge_levels:
  assumes "tree_inv G n" "has_edge G a b"
  shows "\<exists>la lb. at_level G a la \<and> at_level G b lb \<and> lb \<le> la + 1"
proof -
  from assms(2) have "(a, b) \<in> set (edge_list G) \<or> (b, a) \<in> set (edge_list G)"
    by (simp add: has_edge_def)
  then show ?thesis
  proof
    assume "(a, b) \<in> set (edge_list G)"
    then have "\<exists>l. at_level G (fst (a, b)) l \<and> at_level G (snd (a, b)) (l + 1)"
      using assms(1) unfolding tree_inv_def by blast
    then show ?thesis by auto
  next
    assume "(b, a) \<in> set (edge_list G)"
    then have "\<exists>l. at_level G (fst (b, a)) l \<and> at_level G (snd (b, a)) (l + 1)"
      using assms(1) unfolding tree_inv_def by blast
    then obtain l where "at_level G b l" "at_level G a (l + 1)" by auto
    then show ?thesis by (intro exI[of _ "l + 1"] exI[of _ l]) simp
  qed
qed

lemma walk_level_bound:
  assumes "tree_inv G n"
  shows "walk G p \<Longrightarrow> at_level G (hd p) l0 \<Longrightarrow> at_level G (last p) l
           \<Longrightarrow> l \<le> l0 + int (length p) - 1"
proof (induction p arbitrary: l0)
  case Nil
  then show ?case by (simp add: walk_def)
next
  case (Cons x q)
  show ?case
  proof (cases q)
    case Nil
    then have "at_level G x l0" "at_level G x l" using Cons.prems(2,3) by simp_all
    then have "l = l0" by (rule at_level_unique[THEN sym])
    then show ?thesis using Nil by simp
  next
    case (Cons y r)
    have e: "has_edge G x y" using Cons.prems(1) Cons by (simp add: walk_def)
    have wq: "walk G q" using Cons.prems(1) Cons by (simp add: walk_def)
    obtain la lb where l: "at_level G x la" "at_level G y lb" "lb \<le> la + 1"
      using edge_levels[OF assms e] by blast
    have "at_level G x l0" using Cons.prems(2) by simp
    with l(1) have "la = l0" by (rule at_level_unique)
    have "at_level G (hd q) lb" using l(2) Cons by simp
    moreover have "at_level G (last q) l" using Cons.prems(3) Cons by simp
    ultimately have "l \<le> lb + int (length q) - 1" using Cons.IH[OF wq] by blast
    then show ?thesis using l(3) \<open>la = l0\<close> by simp
  qed
qed

lemma walk_reachable: "walk G p \<Longrightarrow> reachable G (hd p) (last p)"
proof (induction p)
  case Nil
  then show ?case by (simp add: walk_def)
next
  case (Cons x q)
  show ?case
  proof (cases q)
    case Nil
    then show ?thesis by (simp add: reachable_refl)
  next
    case (Cons y r)
    have e: "has_edge G x y" using Cons.prems Cons by (simp add: walk_def)
    have "walk G q" using Cons.prems Cons by (simp add: walk_def)
    then have "reachable G (hd q) (last q)" by (rule Cons.IH)
    then have "reachable G y (last (x # q))" using Cons by simp
    moreover have "reachable G x y" using reachable_step[OF reachable_refl e] .
    ultimately have "reachable G x (last (x # q))" by (rule reachable_trans[rotated])
    then show ?thesis by simp
  qed
qed

lemma tree_level_is_distance:
  assumes "tree_inv G n" "has_node G v"
  shows "\<exists>l. at_level G v l \<and> 0 \<le> l \<and> is_distance G 0 v (nat l)"
proof -
  have v: "0 \<le> v" "v < n" using assms by (simp_all add: tree_inv_has_node)
  obtain p l where p: "walk G p" "hd p = 0" "last p = v" "at_level G v l" "0 \<le> l"
      "length p = nat l + 1"
    using walk_to_root[OF assms(1) v] by blast
  have r: "at_level G 0 0" using assms(1) by (rule root_level)
  have lower: "\<forall>q. walk G q \<and> hd q = 0 \<and> last q = v \<longrightarrow> nat l + 1 \<le> length q"
  proof (intro allI impI)
    fix q assume q: "walk G q \<and> hd q = 0 \<and> last q = v"
    then have "l \<le> 0 + int (length q) - 1"
      using walk_level_bound[OF assms(1), of q 0 l] r p(4) by simp
    then show "nat l + 1 \<le> length q" using p(5) by linarith
  qed
  have "is_distance G 0 v (nat l)"
    unfolding is_distance_def using p(1,2,3,6) lower by blast
  then show ?thesis using p(4,5) by blast
qed

lemma tree_connected: "tree_inv G n \<Longrightarrow> connected G"
proof -
  assume t: "tree_inv G n"
  have root: "reachable G 0 v" if "has_node G v" for v
  proof -
    have "0 \<le> v" "v < n" using t that by (simp_all add: tree_inv_has_node)
    then obtain p where "walk G p" "hd p = 0" "last p = v"
      using walk_to_root[OF t] by blast
    then show ?thesis using walk_reachable[of G p] by simp
  qed
  show ?thesis
    unfolding connected_def
  proof (intro allI impI)
    fix u v assume "has_node G u \<and> has_node G v"
    then have u: "reachable G 0 u" and v: "reachable G 0 v" using root by simp_all
    from reachable_sym[OF u] v show "reachable G u v" by (rule reachable_trans)
  qed
qed

lemma tree_wf: "tree_inv G n \<Longrightarrow> wf_graph G"
proof -
  assume t: "tree_inv G n"
  have d: "distinct (map fst (node_dict G))" using t by (simp add: tree_inv_def)
  have "\<forall>e \<in> set (edge_list G). has_node G (fst e) \<and> has_node G (snd e)"
  proof
    fix e assume e: "e \<in> set (edge_list G)"
    then have a: "0 \<le> fst e \<and> fst e < snd e" using t unfolding tree_inv_def by blast
    have "snd e \<in> snd ` set (edge_list G)" using e by simp
    then have "snd e \<le> n - 1" using tree_inv_child_set[OF t] by simp
    then show "has_node G (fst e) \<and> has_node G (snd e)"
      using a by (simp add: tree_inv_has_node[OF t])
  qed
  then show ?thesis using d by (simp add: wf_graph_def)
qed

lemma tree_edge_oriented:
  assumes "tree_inv G n" "has_edge G a b" "a < b"
  shows "(a, b) \<in> set (edge_list G)"
proof -
  have "(a, b) \<in> set (edge_list G) \<or> (b, a) \<in> set (edge_list G)"
    using assms(2) by (simp add: has_edge_def)
  moreover have "(b, a) \<notin> set (edge_list G)"
  proof
    assume "(b, a) \<in> set (edge_list G)"
    then have "fst (b, a) < snd (b, a)" using assms(1) unfolding tree_inv_def by blast
    then show False using assms(3) by simp
  qed
  ultimately show ?thesis by simp
qed

lemma tree_one_parent:
  assumes "tree_inv G n" "(a, m) \<in> set (edge_list G)" "(b, m) \<in> set (edge_list G)"
  shows "a = b"
proof -
  have "distinct (map snd (edge_list G))" using assms(1) by (simp add: tree_inv_def)
  then have inj: "inj_on snd (set (edge_list G))" by (simp add: distinct_map)
  have "(a, m) = (b, m)"
    using inj_onD[OF inj, of "(a, m)" "(b, m)"] assms(2,3) by simp
  then show ?thesis by simp
qed

lemma tree_no_loop: "tree_inv G n \<Longrightarrow> \<not> has_edge G v v"
proof
  assume t: "tree_inv G n" and "has_edge G v v"
  then have "(v, v) \<in> set (edge_list G)" by (simp add: has_edge_def)
  then have "fst (v, v) < snd (v, v)" using t unfolding tree_inv_def by blast
  then show False by simp
qed

lemma tree_no_cycle:
  assumes "tree_inv G n"
  shows "\<not> cycle G c"
proof
  assume c: "cycle G c"
  define len where "len = length c"
  have len3: "3 \<le> len" and dc: "distinct c"
    and adj: "\<And>i. i < len \<Longrightarrow> has_edge G (c ! i) (c ! (Suc i mod len))"
    using c by (simp_all add: cycle_def len_def)
  have ne: "set c \<noteq> {}" using len3 by (auto simp: len_def)
  define m where "m = Max (set c)"
  have "m \<in> set c" unfolding m_def using ne by (intro Max_in) simp_all
  then obtain i where i: "i < len" "c ! i = m" by (auto simp: in_set_conv_nth len_def)
  define ia where "ia = Suc i mod len"
  define j where "j = (if i = 0 then len - 1 else i - 1)"
  have ia: "ia < len" using len3 by (simp add: ia_def)
  have j: "j < len" using i(1) len3 by (auto simp: j_def)
  have sj: "Suc j mod len = i" using i(1) len3 by (auto simp: j_def)
  have ia_i: "ia \<noteq> i"
  proof (cases "Suc i < len")
    case True then show ?thesis by (simp add: ia_def)
  next
    case False
    then have "Suc i = len" using i(1) by simp
    then show ?thesis using len3 by (auto simp: ia_def)
  qed
  have j_i: "j \<noteq> i" using len3 i(1) by (auto simp: j_def)
  have ia_j: "ia \<noteq> j"
  proof (cases "Suc i < len")
    case True then show ?thesis using len3 by (auto simp: ia_def j_def)
  next
    case False
    then have "Suc i = len" using i(1) by simp
    then show ?thesis using len3 by (auto simp: ia_def j_def)
  qed
  define a where "a = c ! ia"
  define b where "b = c ! j"
  have e1: "has_edge G m a" using adj[OF i(1)] i(2) by (simp add: a_def ia_def)
  have e2: "has_edge G b m" using adj[OF j] sj i(2) by (simp add: b_def)
  note ia' = ia[unfolded len_def] and j' = j[unfolded len_def] and i' = i(1)[unfolded len_def]
  have am: "a \<noteq> m"
    using nth_eq_iff_index_eq[OF dc ia' i'] ia_i i(2) by (simp add: a_def)
  have bm: "b \<noteq> m"
    using nth_eq_iff_index_eq[OF dc j' i'] j_i i(2) by (simp add: b_def)
  have ab: "a \<noteq> b"
    using nth_eq_iff_index_eq[OF dc ia' j'] ia_j by (simp add: a_def b_def)
  have "a \<in> set c" "b \<in> set c" using ia j by (simp_all add: a_def b_def len_def)
  then have "a \<le> m" "b \<le> m" by (simp_all add: m_def)
  then have lt: "a < m" "b < m" using am bm by simp_all
  have "has_edge G a m" using e1 by (simp add: has_edge_sym)
  then have p1: "(a, m) \<in> set (edge_list G)" using lt(1) by (rule tree_edge_oriented[OF assms])
  have p2: "(b, m) \<in> set (edge_list G)" using e2 lt(2) by (rule tree_edge_oriented[OF assms])
  have "a = b" using assms p1 p2 by (rule tree_one_parent)
  then show False using ab by simp
qed

lemma tree_acyclic: "tree_inv G n \<Longrightarrow> acyclic_graph G"
  by (simp add: acyclic_graph_def tree_no_loop tree_no_cycle)

lemma children_of_edges:
  assumes "at_level G v l"
    and "\<forall>e \<in> set es. \<exists>l'. at_level G (fst e) l' \<and> at_level G (snd e) (l' + 1)"
  shows "filter (\<lambda>w. node_attr G w ''level'' = Inr (l + 1))
           (concat (map (\<lambda>(u, w). if u = v then [w] else if w = v then [u] else []) es))
         = map snd (filter (\<lambda>e. fst e = v) es)"
  using assms(2)
proof (induction es)
  case Nil
  then show ?case by simp
next
  case (Cons e es)
  obtain u w where e: "e = (u, w)" by (cases e)
  obtain l' where l': "at_level G u l'" "at_level G w (l' + 1)"
    using Cons.prems e by auto
  have ih: "filter (\<lambda>w. node_attr G w ''level'' = Inr (l + 1))
           (concat (map (\<lambda>(u, w). if u = v then [w] else if w = v then [u] else []) es))
         = map snd (filter (\<lambda>e. fst e = v) es)"
    using Cons by simp
  show ?case
  proof (cases "u = v")
    case True
    then have "l' = l" using l'(1) assms(1) at_level_unique by blast
    then have "node_attr G w ''level'' = Inr (l + 1)" using l'(2) by (simp add: at_level_attr)
    then show ?thesis using True e ih by simp
  next
    case False
    show ?thesis
    proof (cases "w = v")
      case True
      then have "l = l' + 1" using l'(2) assms(1) at_level_unique by blast
      then have "node_attr G u ''level'' = Inr (l - 1)" using l'(1) by (simp add: at_level_attr)
      then show ?thesis using False True e ih by simp
    next
      case w: False
      then show ?thesis using False e ih by simp
    qed
  qed
qed

lemma tree_children:
  assumes "tree_inv G n" "at_level G v l"
  shows "children G v = map snd (filter (\<lambda>e. fst e = v) (edge_list G))"
proof -
  have "\<forall>e \<in> set (edge_list G). \<exists>l'. at_level G (fst e) l' \<and> at_level G (snd e) (l' + 1)"
    using assms(1) unfolding tree_inv_def by blast
  then show ?thesis
    using children_of_edges[OF assms(2), of "edge_list G"]
    by (simp add: children_def at_level_attr[OF assms(2)] neighbors_def)
qed

lemma tree_children_count:
  "tree_inv G n \<Longrightarrow> at_level G v l \<Longrightarrow> length (children G v) = out_degree G v"
  by (simp add: tree_children out_degree_def)

lemma tree_in_degree:
  assumes "tree_inv G n"
  shows "length (filter (\<lambda>e. snd e = v) (edge_list G)) = (if 1 \<le> v \<and> v < n then 1 else 0)"
proof -
  have "length (filter (\<lambda>e. snd e = v) (edge_list G))
          = length (filter (\<lambda>x. x = v) (map snd (edge_list G)))"
    by (simp add: filter_map comp_def)
  also have "\<dots> = length (filter (\<lambda>x. x = v) [1..n - 1])"
    using assms by (simp add: tree_inv_def)
  also have "\<dots> = card ({x. x = v} \<inter> set [1..n - 1])"
    by (rule distinct_length_filter) simp
  also have "{x. x = v} \<inter> set [1..n - 1] = (if 1 \<le> v \<and> v < n then {v} else {})"
    by auto
  finally show ?thesis by simp
qed

lemma tree_degree:
  assumes "tree_inv G n" "at_level G v l"
  shows "degree G v = length (children G v) + (if v = 0 then 0 else 1)"
proof -
  have "has_node G v" using assms(2) by (rule at_level_has_node)
  then have "0 \<le> v \<and> v < n" using assms(1) by (simp add: tree_inv_has_node)
  then show ?thesis
    using tree_in_degree[OF assms(1), of v] tree_children_count[OF assms]
    by (auto simp: degree_def out_degree_def)
qed

section \<open>The tree generator: the claim\<close>

lemma cayley_tree_facts:
  assumes "0 \<le> P"
  shows "\<exists>G n. generate_cayley_tree k P = Inr G \<and> tree_inv G n
           \<and> (\<forall>v l. at_level G v l \<longrightarrow> l \<le> P)
           \<and> (\<forall>v l. at_level G v l \<and> l < P \<longrightarrow> out_degree G v = children_count k l)
           \<and> (\<forall>v. at_level G v P \<longrightarrow> out_degree G v = 0)"
proof -
  obtain G cur n where g: "generate_cayley_tree k P = Inr G"
      "expanding k (max 0 P) [] \<lparr>tree = G, new_level = cur, next_node = n\<rparr>"
    using generate_cayley_tree_ok[of k P] by blast
  have "max 0 P = P" using assms by simp
  then have "expanding k P [] \<lparr>tree = G, new_level = cur, next_node = n\<rparr>"
    using g(2) by simp
  then have "tree_inv G n
           \<and> (\<forall>v l. at_level G v l \<longrightarrow> l \<le> P)
           \<and> (\<forall>v l. at_level G v l \<and> l < P \<longrightarrow> out_degree G v = children_count k l)
           \<and> (\<forall>v. at_level G v P \<longrightarrow> out_degree G v = 0)"
    unfolding expanding_def by simp
  then show ?thesis using g(1) by blast
qed

lemma cayley_tree_node:
  assumes "2 \<le> k" "0 \<le> P" "tree_inv G n"
    and lv: "\<forall>v l. at_level G v l \<longrightarrow> l \<le> P"
    and ot: "\<forall>v l. at_level G v l \<and> l < P \<longrightarrow> out_degree G v = children_count k l"
    and ld: "\<forall>v. at_level G v P \<longrightarrow> out_degree G v = 0"
    and hv: "has_node G v"
  shows "\<exists>l. node_attr G v ''level'' = Inr l \<and> 0 \<le> l \<and> l \<le> P \<and> (l = 0 \<longleftrightarrow> v = 0)
           \<and> is_distance G 0 v (nat l)
           \<and> length (children G v) = (if l = P then 0 else if v = 0 then nat k else nat (k - 1))
           \<and> degree G v = length (children G v) + (if v = 0 then 0 else 1)"
proof -
  obtain l where l: "at_level G v l" "0 \<le> l" "is_distance G 0 v (nat l)"
    using tree_level_is_distance[OF assms(3) hv] by blast
  obtain l' where l': "at_level G v l'" "l' = 0 \<longleftrightarrow> v = 0"
    using tree_inv_level[OF assms(3) hv] by blast
  have "l' = l" using l'(1) l(1) by (rule at_level_unique)
  then have z: "l = 0 \<longleftrightarrow> v = 0" using l'(2) by simp
  have le: "l \<le> P" using lv l(1) by blast
  have c: "length (children G v) = out_degree G v"
    using assms(3) l(1) by (rule tree_children_count)
  have cnt: "length (children G v) = (if l = P then 0 else if v = 0 then nat k else nat (k - 1))"
  proof (cases "l = P")
    case True
    then show ?thesis using ld l(1) c by simp
  next
    case False
    then have "l < P" using le by simp
    then have "out_degree G v = children_count k l" using ot l(1) by blast
    then show ?thesis using False c z by (simp add: children_count_def)
  qed
  have d: "degree G v = length (children G v) + (if v = 0 then 0 else 1)"
    using assms(3) l(1) by (rule tree_degree)
  show ?thesis
    using at_level_attr[OF l(1)] l(2,3) le z cnt d by blast
qed

text \<open>
  Claim C1, as the code has it. For a branching factor of at least 2 and a depth of at
  least 0 the generator returns a graph that is connected and acyclic. Every node has a
  level between 0 and the depth, equal to its distance from node 0, which alone has
  level 0. A node at the last level has no children; node 0 has exactly \<open>k\<close> children
  when the depth is at least 1 and none when the depth is 0 (the loop over the levels
  does not run: the tree is node 0 alone); every other node has exactly \<open>k - 1\<close>
  children. Node 0 has degree \<open>k\<close> (0 at depth 0) and every other node has degree at
  most \<open>k\<close>.
\<close>

theorem cayley_tree_shape:
  assumes "2 \<le> k" and "0 \<le> P"
  shows "\<exists>G. generate_cayley_tree k P = Inr G
           \<and> wf_graph G \<and> connected G \<and> acyclic_graph G
           \<and> has_node G 0
           \<and> length (children G 0) = (if P = 0 then 0 else nat k)
           \<and> degree G 0 = (if P = 0 then 0 else nat k)
           \<and> (\<forall>v. has_node G v \<longrightarrow>
                 (\<exists>l. node_attr G v ''level'' = Inr l \<and> 0 \<le> l \<and> l \<le> P
                    \<and> (l = 0 \<longleftrightarrow> v = 0)
                    \<and> is_distance G 0 v (nat l)
                    \<and> length (children G v)
                        = (if l = P then 0 else if v = 0 then nat k else nat (k - 1))))
           \<and> (\<forall>v. has_node G v \<and> v \<noteq> 0 \<longrightarrow>
                 (length (children G v) = 0 \<or> length (children G v) = nat (k - 1))
                 \<and> degree G v \<le> nat k)"
proof -
  obtain G n where g: "generate_cayley_tree k P = Inr G" and t: "tree_inv G n"
    and lv: "\<forall>v l. at_level G v l \<longrightarrow> l \<le> P"
    and ot: "\<forall>v l. at_level G v l \<and> l < P \<longrightarrow> out_degree G v = children_count k l"
    and ld: "\<forall>v. at_level G v P \<longrightarrow> out_degree G v = 0"
    using cayley_tree_facts[OF assms(2), of k] by (elim exE conjE)
  note node = cayley_tree_node[OF assms t lv ot ld]
  have h0: "has_node G 0" using root_level[OF t] by (rule at_level_has_node)
  obtain l0 where l0: "node_attr G 0 ''level'' = Inr l0" "l0 = 0 \<longleftrightarrow> (0::int) = 0"
      "length (children G 0) = (if l0 = P then 0 else if (0::int) = 0 then nat k else nat (k - 1))"
      "degree G 0 = length (children G 0) + (if (0::int) = 0 then 0 else 1)"
    using node[OF h0] by (elim exE conjE)
  have c0: "length (children G 0) = (if P = 0 then 0 else nat k)"
    using l0(2,3) by auto
  have d0: "degree G 0 = (if P = 0 then 0 else nat k)"
    using l0(4) c0 by simp
  have a: "\<forall>v. has_node G v \<longrightarrow>
                 (\<exists>l. node_attr G v ''level'' = Inr l \<and> 0 \<le> l \<and> l \<le> P
                    \<and> (l = 0 \<longleftrightarrow> v = 0)
                    \<and> is_distance G 0 v (nat l)
                    \<and> length (children G v)
                        = (if l = P then 0 else if v = 0 then nat k else nat (k - 1)))"
  proof (intro allI impI)
    fix v assume "has_node G v"
    from node[OF this] show "\<exists>l. node_attr G v ''level'' = Inr l \<and> 0 \<le> l \<and> l \<le> P
                    \<and> (l = 0 \<longleftrightarrow> v = 0)
                    \<and> is_distance G 0 v (nat l)
                    \<and> length (children G v)
                        = (if l = P then 0 else if v = 0 then nat k else nat (k - 1))"
      by blast
  qed
  have b: "\<forall>v. has_node G v \<and> v \<noteq> 0 \<longrightarrow>
                 (length (children G v) = 0 \<or> length (children G v) = nat (k - 1))
                 \<and> degree G v \<le> nat k"
  proof (intro allI impI)
    fix v assume v: "has_node G v \<and> v \<noteq> 0"
    then have hv: "has_node G v" by simp
    obtain l where
      c: "length (children G v) = (if l = P then 0 else if v = 0 then nat k else nat (k - 1))"
      and d: "degree G v = length (children G v) + (if v = 0 then 0 else 1)"
      using node[OF hv] by (elim exE conjE)
    have c': "length (children G v) = 0 \<or> length (children G v) = nat (k - 1)"
      using c v by auto
    have "nat (k - 1) + 1 = nat k" using assms(1) by simp
    then have "degree G v \<le> nat k" using c' d v by auto
    then show "(length (children G v) = 0 \<or> length (children G v) = nat (k - 1))
                 \<and> degree G v \<le> nat k"
      using c' by simp
  qed
  show ?thesis
    by (rule exI[of _ G])
       (intro conjI g tree_wf[OF t] tree_connected[OF t] tree_acyclic[OF t] h0 c0 d0 a b)
qed

text \<open>
  At depth 0 the claim as first stated fails: the result is node 0 alone, with no
  children, not with 2.
\<close>

theorem cayley_tree_root_counterexample:
  "(2::int) \<le> 2 \<and> (0::int) \<le> 0
   \<and> generate_cayley_tree 2 0 = Inr \<lparr>node_dict = [(0, [(''level'', 0)])], edge_list = []\<rparr>
   \<and> length (children \<lparr>node_dict = [(0, [(''level'', 0)])], edge_list = []\<rparr> 0) = 0
   \<and> degree \<lparr>node_dict = [(0, [(''level'', 0 :: int)])], edge_list = []\<rparr> (0 :: int) = 0"
  by code_simp

lemma upto_1_2: "[1..(2::int)] = [1, 2]"
  by (simp add: upto_rec1[of 1 2] upto_rec1[of 2 2])

lemma cayley_tree_3_2: "generate_cayley_tree 3 2 = Inr
  \<lparr>node_dict = [(0, [(''level'', 0)]), (1, [(''level'', 1)]), (2, [(''level'', 1)]),
                (3, [(''level'', 1)]), (4, [(''level'', 2)]), (5, [(''level'', 2)]),
                (6, [(''level'', 2)]), (7, [(''level'', 2)]), (8, [(''level'', 2)]),
                (9, [(''level'', 2)])],
    edge_list = [(0, 1), (0, 2), (0, 3), (1, 4), (1, 5), (2, 6), (2, 7), (3, 8), (3, 9)]\<rparr>"
  by (simp add: generate_cayley_tree_def expand_node_def add_child_def add_node_def
        add_edge_def ensure_node_def has_node_def has_edge_def node_attr_def empty_graph_def
        dict_update_def eval_nat_numeral Let_def upto_1_2)

theorem cayley_tree_shape_witness:
  "(2::int) \<le> 3 \<and> (0::int) \<le> 2
   \<and> (\<exists>G. generate_cayley_tree 3 2 = Inr G \<and> number_of_nodes G = 10
          \<and> connected G \<and> acyclic_graph G
          \<and> length (children G 0) = 3 \<and> degree G 0 = 3
          \<and> (\<forall>v. has_node G v \<and> v \<noteq> 0 \<longrightarrow> degree G v \<le> 3))"
proof -
  have h1: "(2::int) \<le> 3" and h2: "(0::int) \<le> 2" by simp_all
  obtain G where g: "generate_cayley_tree 3 2 = Inr G" "connected G" "acyclic_graph G"
      "length (children G 0) = (if (2::int) = 0 then 0 else nat 3)"
      "degree G 0 = (if (2::int) = 0 then 0 else nat 3)"
      "\<forall>v. has_node G v \<and> v \<noteq> 0 \<longrightarrow>
                 (length (children G v) = 0 \<or> length (children G v) = nat (3 - 1))
                 \<and> degree G v \<le> nat 3"
    using cayley_tree_shape[OF h1 h2] by (elim exE conjE)
  have n: "number_of_nodes G = 10"
    using g(1) by (auto simp: cayley_tree_3_2 number_of_nodes_def)
  have "\<forall>v. has_node G v \<and> v \<noteq> 0 \<longrightarrow> degree G v \<le> 3"
    using g(6) by simp
  then have "generate_cayley_tree 3 2 = Inr G \<and> number_of_nodes G = 10
          \<and> connected G \<and> acyclic_graph G
          \<and> length (children G 0) = 3 \<and> degree G 0 = 3
          \<and> (\<forall>v. has_node G v \<and> v \<noteq> 0 \<longrightarrow> degree G v \<le> 3)"
    using g(1-5) n by simp
  then have "\<exists>G. generate_cayley_tree 3 2 = Inr G \<and> number_of_nodes G = 10
          \<and> connected G \<and> acyclic_graph G
          \<and> length (children G 0) = 3 \<and> degree G 0 = 3
          \<and> (\<forall>v. has_node G v \<and> v \<noteq> 0 \<longrightarrow> degree G v \<le> 3)"
    by (rule exI)
  then show ?thesis using h1 h2 by (intro conjI)
qed

end
